theory Spec2Isabelle
  imports Main
begin

section \<open>Data model of \<^verbatim>\<open>Source/Main.cpp\<close>\<close>

text \<open>
  The enum \<^verbatim>\<open>LoopStates\<close> is an unscoped C++ enum; \<^verbatim>\<open>handleCtrlMessage\<close> produces
  its values by \<^verbatim>\<open>static_cast\<close> from an arbitrary \<^verbatim>\<open>int\<close>, so a loop state is an
  integer here and the enumerators are integer constants
  (\<^verbatim>\<open>Unknown = -1, Off = 0, WaitStart, ...\<close>).
\<close>

type_synonym LoopStates = int

definition Unknown :: LoopStates where "Unknown = -1"
definition Off :: LoopStates where "Off = 0"
definition WaitStart :: LoopStates where "WaitStart = 1"
definition Recording :: LoopStates where "Recording = 2"
definition WaitStop :: LoopStates where "WaitStop = 3"
definition Playing :: LoopStates where "Playing = 4"
definition Overdubbing :: LoopStates where "Overdubbing = 5"
definition Multiplying :: LoopStates where "Multiplying = 6"
definition Inserting :: LoopStates where "Inserting = 7"
definition Replacing :: LoopStates where "Replacing = 8"
definition Delay :: LoopStates where "Delay = 9"
definition Muted :: LoopStates where "Muted = 10"
definition Scratching :: LoopStates where "Scratching = 11"
definition OneShot :: LoopStates where "OneShot = 12"
definition Substitute :: LoopStates where "Substitute = 13"
definition Paused :: LoopStates where "Paused = 14"

datatype LedStates = Dark | Light | Blink | FastBlink

text \<open>The value of \<^verbatim>\<open>(int)led.state_\<close>.\<close>

fun ledStateCode :: "LedStates \<Rightarrow> int" where
  "ledStateCode Dark = 0"
| "ledStateCode Light = 1"
| "ledStateCode Blink = 2"
| "ledStateCode FastBlink = 3"

definition DEFAULT_BASE_NOTE :: int where "DEFAULT_BASE_NOTE = 64"
definition UP :: int where "UP = 10"
definition DOWN :: int where "DOWN = 11"

definition TIMER_OFF :: int where "TIMER_OFF = 0"
definition TIMER_FASTBLINK :: int where "TIMER_FASTBLINK = 1"
definition TIMER_BLINK :: int where "TIMER_BLINK = 3"

definition RECORD :: int where "RECORD = 4"
definition MULTIPLY :: int where "MULTIPLY = 5"
definition INSERT :: int where "INSERT = 6"
definition REPLACE :: int where "REPLACE = 7"
definition SUBSTITUTE :: int where "SUBSTITUTE = 8"
definition UNDO :: int where "UNDO = 9"

text \<open>
  \<^verbatim>\<open>struct LED\<close> and \<^verbatim>\<open>struct Loop\<close>. The member \<^verbatim>\<open>LED& led_\<close> of a loop refers to an
  element of the array \<^verbatim>\<open>leds_\<close>, which is filled once by the constructor and never
  resized; the reference is the position of that element.
\<close>

record LED =
  led_index :: int
  led_on :: bool
  led_timer :: int
  led_state :: LedStates

record Loop =
  loop_index :: int
  loop_state :: LoopStates
  loop_led :: nat

text \<open>
  An OSC argument. The program reads a float32 argument only through the implicit C++
  conversion to \<^verbatim>\<open>int\<close> (\<^verbatim>\<open>loopState = arg->getFloat32()\<close>,
  \<^verbatim>\<open>selectedLoop_ = arg->getFloat32()\<close>); \<open>OFloat32\<close> carries the integer that this
  conversion yields.
\<close>

datatype OSCArgument =
  OInt32 int
| OFloat32 int
| OString string
| OBlob string


fun isFloat32 :: "OSCArgument \<Rightarrow> bool" where
  "isFloat32 (OFloat32 _) = True"
| "isFloat32 _ = False"

fun isString :: "OSCArgument \<Rightarrow> bool" where
  "isString (OString _) = True"
| "isString _ = False"

datatype MidiMessage =
  NoteOn int int int
| NoteOff int int int
| Controller int int int
| OtherMidi

text \<open>
  Everything the program sends or prints, in the order in which it happens:
  a message handed to \<^verbatim>\<open>virtMidiOut_\<close>, a line \<^verbatim>\<open>cc <number> <value>\<close> on
  \<^verbatim>\<open>std::cout\<close>, a message sent through \<^verbatim>\<open>oscSender\<close> (to the looper) or through
  \<^verbatim>\<open>oscLedSender\<close> (to the registered display client), and a diagnostic line on
  \<^verbatim>\<open>std::cerr\<close>.
\<close>

datatype event =
  MidiSent MidiMessage
| Cc int int
| OscSent string "OSCArgument list"
| LedOscSent string "OSCArgument list"
| Stderr string

text \<open>
  What the JUCE containers do outside their range is an assertion in a debug build and
  an out-of-range memory access otherwise; each such access is an error value.
\<close>

datatype error =
  LedIndexOutOfRange
| LoopIndexOutOfRange
| ArgumentPastEnd

datatype CommandIndex =
  NONE | LIST | PANIC | DEVICE_IN | VIRTUAL_OUT | CHANNEL | BASE_NOTE | OSC_IN | OSC_OUT

text \<open>
  Of an \<^verbatim>\<open>ApplicationCommand\<close> the MIDI handler reads \<^verbatim>\<open>command_\<close> and the 7-bit value
  of \<^verbatim>\<open>opts_[0]\<close>.
\<close>

record ApplicationCommand =
  command :: CommandIndex
  opt0 :: int

text \<open>The members of \<^verbatim>\<open>loop4r_readApplication\<close> that the modelled functions use.\<close>

record app =
  leds :: "LED list"
  loops :: "Loop list"
  channel :: int
  baseNote :: int
  mode :: int
  heartbeat :: int
  engineId :: int
  loopCount :: int
  selectedLoop :: int
  hostUrl :: string
  version :: string
  pinged :: bool
  oscSendPort :: int
  oscReceivePort :: int
  currentSendPort :: int
  currentReceivePort :: int
  currentLedSendPort :: int
  oscLedSenderInitialized :: bool
  virtMidiOut :: bool
  missingOutputPortWarningPrinted :: bool
  filterCommands :: "ApplicationCommand list"
  events :: "event list"

definition emit :: "event \<Rightarrow> app \<Rightarrow> app" where
  "emit e s = s\<lparr>events := events s @ [e]\<rparr>"

text \<open>Sequencing of steps that can fail.\<close>

definition andThen :: "error + 'a \<Rightarrow> ('a \<Rightarrow> error + 'b) \<Rightarrow> error + 'b" where
  "andThen r f = (case r of Inl e \<Rightarrow> Inl e | Inr s \<Rightarrow> f s)"

text \<open>\<^verbatim>\<open>std::to_string\<close> on an \<^verbatim>\<open>int\<close>.\<close>

function digitsOf :: "nat \<Rightarrow> string" where
  "digitsOf n =
     (if n < 10 then [''0123456789'' ! n]
      else digitsOf (n div 10) @ [''0123456789'' ! (n mod 10)])"
  by pat_completeness auto
termination
  by (relation "measure id") auto

declare digitsOf.simps [simp del]

definition to_string :: "int \<Rightarrow> string" where
  "to_string i = (if i < 0 then CHR ''-'' # digitsOf (nat (- i)) else digitsOf (nat i))"

section \<open>The constructor\<close>

definition initialLeds :: "LED list" where
  "initialLeds =
     map (\<lambda>i. \<lparr>led_index = i, led_on = False, led_timer = TIMER_OFF, led_state = Dark\<rparr>)
       [0, 1, 2, 3, 4, 5, 6, 7, 8, 9]"

text \<open>
  The state after the constructor and the member initialisers; no filter command, no
  virtual MIDI output yet.
\<close>

definition initial :: app where
  "initial =
     \<lparr>leds = initialLeds, loops = [], channel = 1, baseNote = DEFAULT_BASE_NOTE, mode = 0,
      heartbeat = 5, engineId = 0, loopCount = 0, selectedLoop = -1, hostUrl = [],
      version = [], pinged = False, oscSendPort = 9951, oscReceivePort = 9000,
      currentSendPort = -1, currentReceivePort = -1, currentLedSendPort = -1,
      oscLedSenderInitialized = False, virtMidiOut = False,
      missingOutputPortWarningPrinted = False, filterCommands = [], events = []\<rparr>"

section \<open>LEDs\<close>

text \<open>\<^verbatim>\<open>ledNumber\<close> returns a \<^verbatim>\<open>uint8\<close>, which the caller prints as an \<^verbatim>\<open>int\<close>.\<close>

definition ledNumber :: "int \<Rightarrow> int" where
  "ledNumber pedalIdx =
     (if 0 \<le> pedalIdx \<and> pedalIdx \<le> 8 then pedalIdx + 1
      else if pedalIdx = 9 then 0
      else pedalIdx mod 256)"

definition ledOscArgs :: "LED \<Rightarrow> OSCArgument list" where
  "ledOscArgs led =
     [OInt32 (led_index led), OInt32 (if led_on led then 1 else 0), OInt32 (led_timer led),
      OInt32 (ledStateCode (led_state led))]"

text \<open>
  \<^verbatim>\<open>ledOn\<close> and \<^verbatim>\<open>ledOff\<close>: the line on \<^verbatim>\<open>std::cout\<close>, then
  \<^verbatim>\<open>leds_.getReference(pedalIdx)\<close>, the write to \<^verbatim>\<open>on_\<close> and the broadcast to a
  registered display client.
\<close>

definition setLed :: "int \<Rightarrow> int \<Rightarrow> bool \<Rightarrow> app \<Rightarrow> error + app" where
  "setLed cc pedalIdx v s =
     (let s1 = emit (Cc cc (ledNumber pedalIdx)) s in
      if 0 \<le> pedalIdx \<and> pedalIdx < int (length (leds s1)) then
        (let led = (leds s1 ! nat pedalIdx)\<lparr>led_on := v\<rparr>;
             s2 = s1\<lparr>leds := (leds s1)[nat pedalIdx := led]\<rparr>
         in Inr (if oscLedSenderInitialized s2 then emit (LedOscSent ''/led'' (ledOscArgs led)) s2
                 else s2))
      else Inl LedIndexOutOfRange)"

definition ledOn :: "int \<Rightarrow> app \<Rightarrow> error + app" where
  "ledOn pedalIdx s = setLed 106 pedalIdx True s"

definition ledOff :: "int \<Rightarrow> app \<Rightarrow> error + app" where
  "ledOff pedalIdx s = setLed 107 pedalIdx False s"

text \<open>
  The two assignments \<^verbatim>\<open>loop.led_.state_ = st; loop.led_.timer_ = t;\<close> that open every
  case of the first switch of \<^verbatim>\<open>updateLoopLedState\<close>.
\<close>

definition setLoopLed :: "Loop \<Rightarrow> LedStates \<Rightarrow> int \<Rightarrow> app \<Rightarrow> app" where
  "setLoopLed loop st t s =
     s\<lparr>leds := (leds s)[loop_led loop :=
          (leds s ! loop_led loop)\<lparr>led_state := st, led_timer := t\<rparr>]\<rparr>"

text \<open>The first switch of \<^verbatim>\<open>updateLoopLedState\<close>, on \<^verbatim>\<open>newState\<close>.\<close>

definition applyNewState :: "Loop \<Rightarrow> LoopStates \<Rightarrow> app \<Rightarrow> error + app" where
  "applyNewState loop newState s =
     (if newState = Unknown \<or> newState = Off then
        ledOff (loop_index loop) (setLoopLed loop Dark TIMER_OFF s)
      else if newState = WaitStart \<or> newState = WaitStop then
        ledOn (loop_index loop) (setLoopLed loop FastBlink TIMER_FASTBLINK s)
      else if newState = Recording then
        ledOn (loop_index loop) (setLoopLed loop Light TIMER_OFF s)
      else if newState = Overdubbing then
        ledOn (loop_index loop) (setLoopLed loop Light TIMER_OFF s)
      else if newState = Inserting then
        andThen (ledOn (loop_index loop) (setLoopLed loop FastBlink TIMER_FASTBLINK s))
          (ledOn INSERT)
      else if newState = Replacing then
        andThen (ledOn (loop_index loop) (setLoopLed loop FastBlink TIMER_FASTBLINK s))
          (ledOn REPLACE)
      else if newState = Substitute then
        andThen (ledOn (loop_index loop) (setLoopLed loop FastBlink TIMER_FASTBLINK s))
          (ledOn SUBSTITUTE)
      else if newState = Multiplying then
        andThen (ledOn (loop_index loop) (setLoopLed loop FastBlink TIMER_FASTBLINK s))
          (ledOn MULTIPLY)
      else if newState = Delay then
        ledOn (loop_index loop) (setLoopLed loop Light TIMER_OFF s)
      else if newState = Scratching then
        ledOn (loop_index loop) (setLoopLed loop Light TIMER_OFF s)
      else if newState = OneShot then
        ledOn (loop_index loop) (setLoopLed loop Light TIMER_OFF s)
      else if newState = Playing then
        (if mode s = 0 then ledOn (loop_index loop) (setLoopLed loop Light TIMER_OFF s)
         else ledOn (loop_index loop) (setLoopLed loop Blink TIMER_BLINK s))
      else if newState = Muted \<or> newState = Paused then
        ledOn (loop_index loop) (setLoopLed loop Blink TIMER_BLINK s)
      else
        ledOff (loop_index loop) (setLoopLed loop Dark TIMER_OFF s))"

text \<open>
  The second switch, on the state the loop had (\<^verbatim>\<open>loop.state_\<close>), entered when
  \<^verbatim>\<open>newState != loop.state_\<close>.
\<close>

definition turnOffPrevious :: "LoopStates \<Rightarrow> app \<Rightarrow> error + app" where
  "turnOffPrevious prev s =
     (if prev = Inserting then ledOff INSERT s
      else if prev = Replacing then ledOff REPLACE s
      else if prev = Substitute then ledOff SUBSTITUTE s
      else if prev = Multiplying then ledOff MULTIPLY s
      else Inr s)"

text \<open>
  \<^verbatim>\<open>updateLoopLedState(Loop& loop, LoopStates newState)\<close>; the reference \<^verbatim>\<open>loop\<close> is the
  position \<open>k\<close> of the loop in \<^verbatim>\<open>loops_\<close> (both callers pass an element of \<^verbatim>\<open>loops_\<close>).
\<close>

definition updateLoopLedState :: "nat \<Rightarrow> LoopStates \<Rightarrow> app \<Rightarrow> error + app" where
  "updateLoopLedState k newState s =
     (let loop = loops s ! k in
      andThen (applyNewState loop newState s) (\<lambda>s1.
      andThen (if newState \<noteq> loop_state loop then turnOffPrevious (loop_state loop) s1
               else Inr s1) (\<lambda>s2.
      Inr (s2\<lparr>loops := (loops s2)[k := (loops s2 ! k)\<lparr>loop_state := newState\<rparr>]\<rparr>))))"

text \<open>\<^verbatim>\<open>updateLoops\<close>: the range-for over \<^verbatim>\<open>loops_\<close>.\<close>

fun updateLoopsFrom :: "nat list \<Rightarrow> app \<Rightarrow> error + app" where
  "updateLoopsFrom [] s = Inr s"
| "updateLoopsFrom (k # ks) s =
     andThen (updateLoopLedState k (loop_state (loops s ! k)) s) (updateLoopsFrom ks)"

definition updateLoops :: "app \<Rightarrow> error + app" where
  "updateLoops s = updateLoopsFrom [0..<length (loops s)] s"

section \<open>The OSC session: periodic tick\<close>

definition replyUrl :: "app \<Rightarrow> string" where
  "replyUrl s = ''osc.udp://localhost:'' @ to_string (currentReceivePort s) @ ''/''"

definition isValidOscPort :: "int \<Rightarrow> bool" where
  "isValidOscPort port = (port > 0 \<and> port < 65536)"

text \<open>
  \<^verbatim>\<open>connect()\<close>. Whether \<^verbatim>\<open>oscReceiver.connect\<close> succeeds is decided outside the
  program and is the parameter \<open>receiverOk\<close>.
\<close>

definition connect :: "bool \<Rightarrow> app \<Rightarrow> app" where
  "connect receiverOk s =
     (let portToConnect = oscReceivePort s in
      if isValidOscPort portToConnect then
        (if receiverOk then s\<lparr>currentReceivePort := portToConnect\<rparr>
         else emit (Stderr (''Error: could not connect to port '' @ to_string portToConnect)) s)
      else emit (Stderr ''Error: you have entered an invalid UDP port number.'') s)"

text \<open>
  \<^verbatim>\<open>tryToConnectOsc()\<close>; \<open>senderOk\<close> is the result of \<^verbatim>\<open>oscSender.connect\<close>.
\<close>

definition tryToConnectOsc :: "bool \<Rightarrow> bool \<Rightarrow> app \<Rightarrow> bool \<times> app" where
  "tryToConnectOsc senderOk receiverOk s =
     (let s1 = (if currentSendPort s < 0 then
                  (if senderOk then
                     (emit (Stderr (''Successfully connected to OSC Send port '' @
                         to_string (oscSendPort s))) s)\<lparr>currentSendPort := oscSendPort s\<rparr>
                   else s)
                else s);
          s2 = (if currentReceivePort s1 < 0 then connect receiverOk s1 else s1)
      in if currentSendPort s2 > 0 \<and> currentReceivePort s2 > 0 then
           (True, if pinged s2 then s2
                  else emit (OscSent ''/ping'' [OString (replyUrl s2), OString ''/pingack'']) s2)
         else (False, s2))"

text \<open>
  The OSC part of \<^verbatim>\<open>timerCallback()\<close> (the block that starts with
  \<^verbatim>\<open>if (currentReceivePort_ < 0 || currentSendPort_ < 0)\<close>). The statements before it
  open the MIDI input and create the virtual MIDI output; they assign only
  \<^verbatim>\<open>midiIn_\<close>, \<^verbatim>\<open>fullMidiInName_\<close>, \<^verbatim>\<open>virtMidiOut_\<close> and \<^verbatim>\<open>virtMidiOutName_\<close>, none of which
  this block reads.
\<close>

definition timerCallback :: "bool \<Rightarrow> bool \<Rightarrow> app \<Rightarrow> app" where
  "timerCallback senderOk receiverOk s =
     (if currentReceivePort s < 0 \<or> currentSendPort s < 0 then
        (case tryToConnectOsc senderOk receiverOk s of
           (ok, s1) \<Rightarrow>
             if ok then
               (emit (Stderr (''Connected to OSC ports '' @ to_string (currentReceivePort s1) @
                   '' (in), '' @ to_string (currentSendPort s1) @ '' (out) and '' @
                   to_string (currentLedSendPort s1) @ '' (led)'')) s1)\<lparr>heartbeat := 5\<rparr>
             else s1)
      else if heartbeat s = 0 then
        emit (OscSent ''/ping'' [OString (replyUrl s), OString ''/heartbeat'']) s
      else if heartbeat s < -5 then
        (case tryToConnectOsc senderOk receiverOk
                (s\<lparr>currentReceivePort := -1, currentSendPort := -1\<rparr>) of
           (ok, s1) \<Rightarrow>
             if ok then
               (emit (Stderr (''Reconnected to OSC ports '' @
                   to_string (currentReceivePort s1) @ '' (in) and '' @
                   to_string (currentSendPort s1) @ '' (out)'')) s1)\<lparr>heartbeat := 5\<rparr>
             else s1)
      else s\<lparr>heartbeat := heartbeat s - 1\<rparr>)"

text \<open>\<open>n\<close> consecutive ticks with no other event in between.\<close>

primrec ticks :: "nat \<Rightarrow> bool \<Rightarrow> bool \<Rightarrow> app \<Rightarrow> app" where
  "ticks 0 senderOk receiverOk s = s"
| "ticks (Suc n) senderOk receiverOk s =
     ticks n senderOk receiverOk (timerCallback senderOk receiverOk s)"

section \<open>Requests to the looper\<close>

definition getCurrentState :: "int \<Rightarrow> app \<Rightarrow> app" where
  "getCurrentState index s =
     emit (OscSent (''/sl'' @ ''/'' @ to_string index @ ''/get'')
             [OString ''state'', OString (replyUrl s), OString ''/ctrl'']) s"

definition registerAutoUpdates :: "int \<Rightarrow> bool \<Rightarrow> app \<Rightarrow> app" where
  "registerAutoUpdates index unreg s =
     (if unreg then
        emit (OscSent (''/sl'' @ ''/'' @ to_string index @ ''/unregister_auto_update'')
                [OString ''state'', OInt32 100, OString (replyUrl s), OString ''/ctrl'']) s
      else
        emit (OscSent (''/sl'' @ ''/'' @ to_string index @ ''/register_auto_update'')
                [OString ''state'', OInt32 100, OString (replyUrl s), OString ''/ctrl'']) s)"

definition registerGlobalUpdates :: "bool \<Rightarrow> app \<Rightarrow> app" where
  "registerGlobalUpdates unreg s =
     (if unreg then
        emit (OscSent ''/unregister_update''
                [OString ''selected_loop_num'', OString (replyUrl s), OString ''/ctrl'']) s
      else
        emit (OscSent ''/register_update''
                [OString ''selected_loop_num'', OString (replyUrl s), OString ''/ctrl'']) s)"

text \<open>
  \<^verbatim>\<open>selectLoop()\<close>. The first line prints \<^verbatim>\<open>selectedLoop_ / 10\<close> only when it is
  positive, where C++ division and \<open>div\<close> agree; \<^verbatim>\<open>selectedLoop_ % 10\<close> has the sign of
  \<^verbatim>\<open>selectedLoop_\<close> in C++.
\<close>

definition selectLoop :: "app \<Rightarrow> app" where
  "selectLoop s =
     (let n = selectedLoop s;
          s1 = (if n \<ge> 10 then emit (Cc 113 (n div 10)) s else emit (Cc 113 0) s);
          s2 = emit (Cc 114 (if n < 0 then - ((- n) mod 10) else n mod 10)) s1
      in if oscLedSenderInitialized s2 then emit (LedOscSent ''/display'' [OInt32 n]) s2
         else s2)"

text \<open>\<^verbatim>\<open>loops_.add({i, Off, leds_.getReference(i)})\<close>.\<close>

definition addLoop :: "int \<Rightarrow> app \<Rightarrow> error + app" where
  "addLoop i s =
     (if 0 \<le> i \<and> i < int (length (leds s)) then
        Inr (s\<lparr>loops := loops s @ [\<lparr>loop_index = i, loop_state = Off, loop_led = nat i\<rparr>]\<rparr>)
      else Inl LedIndexOutOfRange)"

section \<open>Messages from the looper\<close>

text \<open>
  The argument loop of \<^verbatim>\<open>handlePingAckMessage\<close>: \<open>i\<close> counts the arguments, each of the
  first four is stored when it has the expected type.
\<close>

fun pingAckArgs :: "nat \<Rightarrow> OSCArgument list \<Rightarrow> app \<Rightarrow> app" where
  "pingAckArgs i [] s = s"
| "pingAckArgs i (arg # rest) s =
     pingAckArgs (Suc i) rest
       (if i = 0 then (case arg of OString v \<Rightarrow> s\<lparr>hostUrl := v\<rparr> | _ \<Rightarrow> s)
        else if i = 1 then (case arg of OString v \<Rightarrow> s\<lparr>version := v\<rparr> | _ \<Rightarrow> s)
        else if i = 2 then (case arg of OInt32 v \<Rightarrow> s\<lparr>loopCount := v\<rparr> | _ \<Rightarrow> s)
        else if i = 3 then (case arg of OInt32 v \<Rightarrow> s\<lparr>engineId := v\<rparr> | _ \<Rightarrow> s)
        else emit (Stderr ''Unexpected number of arguments for /pingack'') s)"

text \<open>
  The loop \<^verbatim>\<open>for (i = 0; i < loopCount_; i++)\<close> of \<^verbatim>\<open>handlePingAckMessage\<close>. The body
  does not assign \<^verbatim>\<open>loopCount_\<close>; the bound \<open>n\<close> is its value when the loop starts.
\<close>

function pingAckLoops :: "int \<Rightarrow> int \<Rightarrow> app \<Rightarrow> error + app" where
  "pingAckLoops i n s =
     (if i < n then
        (case addLoop i s of
           Inl e \<Rightarrow> Inl e
         | Inr s1 \<Rightarrow> pingAckLoops (i + 1) n (getCurrentState i (registerAutoUpdates i False s1)))
      else Inr s)"
  by pat_completeness auto
termination
  by (relation "measure (\<lambda>(i, n, s). nat (n - i))") auto

declare pingAckLoops.simps [simp del]

definition handlePingAckMessage :: "OSCArgument list \<Rightarrow> app \<Rightarrow> error + app" where
  "handlePingAckMessage message s =
     (if message \<noteq> [] then
        (let s1 = pingAckArgs 0 message s in
         andThen
           (if loopCount s1 > 0 then
              andThen (pingAckLoops 0 (loopCount s1) (s1\<lparr>loops := []\<rparr>))
                (\<lambda>s2. Inr (registerGlobalUpdates False s2))
            else Inr s1)
           (\<lambda>s3. Inr (s3\<lparr>heartbeat := 5\<rparr>)))
      else Inr s)"

text \<open>
  The argument loop of \<^verbatim>\<open>handleHeartbeatMessage\<close>; the locals \<^verbatim>\<open>numloops\<close> and \<^verbatim>\<open>uid\<close>
  travel with the state.
\<close>

fun heartbeatArgs :: "nat \<Rightarrow> OSCArgument list \<Rightarrow> int \<times> int \<times> app \<Rightarrow> int \<times> int \<times> app" where
  "heartbeatArgs i [] r = r"
| "heartbeatArgs i (arg # rest) (numloops, uid, s) =
     heartbeatArgs (Suc i) rest
       (if i = 0 then (case arg of OString v \<Rightarrow> (numloops, uid, s\<lparr>hostUrl := v\<rparr>)
                       | _ \<Rightarrow> (numloops, uid, s))
        else if i = 1 then (case arg of OString v \<Rightarrow> (numloops, uid, s\<lparr>version := v\<rparr>)
                            | _ \<Rightarrow> (numloops, uid, s))
        else if i = 2 then (case arg of OInt32 v \<Rightarrow> (v, uid, s) | _ \<Rightarrow> (numloops, uid, s))
        else if i = 3 then (case arg of OInt32 v \<Rightarrow> (numloops, v, s) | _ \<Rightarrow> (numloops, uid, s))
        else (numloops, uid, emit (Stderr ''Unexpected number of arguments for /heartbeat'') s))"

text \<open>
  The loop of the branch \<^verbatim>\<open>uid != engineId_\<close> (bound: \<^verbatim>\<open>loopCount_\<close>, just assigned and
  not changed by the body) and the loop of the other branch (bound: the local
  \<^verbatim>\<open>numloops\<close>).
\<close>

function rebuildLoops :: "int \<Rightarrow> int \<Rightarrow> app \<Rightarrow> error + app" where
  "rebuildLoops i n s =
     (if i < n then
        (case addLoop i s of
           Inl e \<Rightarrow> Inl e
         | Inr s1 \<Rightarrow>
             (case updateLoops (getCurrentState i (registerAutoUpdates i False s1)) of
                Inl e \<Rightarrow> Inl e
              | Inr s2 \<Rightarrow> rebuildLoops (i + 1) n s2))
      else Inr s)"
  by pat_completeness auto
termination
  by (relation "measure (\<lambda>(i, n, s). nat (n - i))") auto

declare rebuildLoops.simps [simp del]

function extendLoops :: "int \<Rightarrow> int \<Rightarrow> app \<Rightarrow> error + app" where
  "extendLoops i numloops s =
     (if i < numloops then
        (case addLoop i (registerAutoUpdates i False s) of
           Inl e \<Rightarrow> Inl e
         | Inr s1 \<Rightarrow>
             (case updateLoops s1 of
                Inl e \<Rightarrow> Inl e
              | Inr s2 \<Rightarrow> extendLoops (i + 1) numloops s2))
      else Inr s)"
  by pat_completeness auto
termination
  by (relation "measure (\<lambda>(i, n, s). nat (n - i))") auto

declare extendLoops.simps [simp del]

definition handleHeartbeatMessage :: "OSCArgument list \<Rightarrow> app \<Rightarrow> error + app" where
  "handleHeartbeatMessage message s =
     (if message \<noteq> [] then
        (case heartbeatArgs 0 message (0, engineId s, s) of
           (numloops, uid, s1) \<Rightarrow>
             andThen
               (if uid \<noteq> engineId s1 then
                  (if numloops > 0 then
                     andThen (rebuildLoops 0 numloops (s1\<lparr>loopCount := numloops, loops := []\<rparr>))
                       (\<lambda>s2. Inr (registerGlobalUpdates False s2))
                   else Inr s1)
                else
                  (if loopCount s1 \<noteq> numloops then
                     andThen (extendLoops (loopCount s1) numloops s1)
                       (\<lambda>s2. Inr (s2\<lparr>loopCount := numloops\<rparr>))
                   else Inr s1))
               (\<lambda>s3. Inr (s3\<lparr>heartbeat := 5\<rparr>)))
      else Inr s)"

text \<open>
  \<^verbatim>\<open>handleCtrlMessage\<close>. The pointer \<^verbatim>\<open>arg\<close> walks the argument list; after \<^verbatim>\<open>++arg\<close>
  the code reads \<^verbatim>\<open>*arg\<close> without comparing it with \<^verbatim>\<open>message.end()\<close>, which is the
  error \<open>ArgumentPastEnd\<close> when the list is exhausted. \<^verbatim>\<open>loops_.getReference\<close> outside
  the array is \<open>LoopIndexOutOfRange\<close>.
\<close>

definition handleCtrlMessage :: "OSCArgument list \<Rightarrow> app \<Rightarrow> error + app" where
  "handleCtrlMessage message s =
     (case message of
        [] \<Rightarrow> Inr s
      | arg0 # rest0 \<Rightarrow>
          (case arg0 of
             OInt32 loopIndex \<Rightarrow>
               if loopIndex = -2 then
                 (case rest0 of
                    [] \<Rightarrow> Inl ArgumentPastEnd
                  | arg1 # rest1 \<Rightarrow>
                      if arg1 = OString ''selected_loop_num'' then
                        (case rest1 of
                           [] \<Rightarrow> Inl ArgumentPastEnd
                         | arg2 # rest2 \<Rightarrow>
                             (case arg2 of
                                OFloat32 v \<Rightarrow> Inr (selectLoop (s\<lparr>selectedLoop := v\<rparr>))
                              | _ \<Rightarrow> Inr s))
                      else Inr s)
               else if loopIndex < 0 then Inr s
               else
                 andThen
                   (case rest0 of
                      [] \<Rightarrow> Inl ArgumentPastEnd
                    | arg1 # rest1 \<Rightarrow>
                        if arg1 = OString ''state'' then
                          (case rest1 of
                             [] \<Rightarrow> Inl ArgumentPastEnd
                           | arg2 # rest2 \<Rightarrow>
                               (case arg2 of
                                  OFloat32 loopState \<Rightarrow>
                                    if loopIndex < int (length (loops s)) then
                                      updateLoopLedState (nat loopIndex) loopState s
                                    else Inl LoopIndexOutOfRange
                                | _ \<Rightarrow> Inr s))
                        else Inr s)
                   (\<lambda>s1. Inr (s1\<lparr>heartbeat := 5\<rparr>))
           | _ \<Rightarrow> Inr (emit (Stderr ''unrecognized format for ctrl message.'') s)))"

section \<open>Pedal events\<close>

definition pedalIndex :: "int \<Rightarrow> int" where
  "pedalIndex controllerValue =
     (if 1 \<le> controllerValue \<and> controllerValue \<le> 9 then controllerValue - 1
      else if controllerValue = 0 then 9
      else if controllerValue = 10 then UP
      else if controllerValue = 11 then DOWN
      else controllerValue)"

text \<open>
  \<^verbatim>\<open>sendMidiMessage(virtMidiOut_, msg)\<close>; \<open>virtMidiOut\<close> tells whether the pointer is
  non-null, the static local \<^verbatim>\<open>missingOutputPortWarningPrinted\<close> is a field of the state.
\<close>

definition sendMidiMessage :: "MidiMessage \<Rightarrow> app \<Rightarrow> app" where
  "sendMidiMessage msg s =
     (if virtMidiOut s then emit (MidiSent msg) s
      else if missingOutputPortWarningPrinted s then s
      else (emit (Stderr ''No valid MIDI output port was specified for some of the messages'') s)
             \<lparr>missingOutputPortWarningPrinted := True\<rparr>)"

text \<open>The loop over \<^verbatim>\<open>filterCommands_\<close> at the head of the MIDI handler.\<close>

fun applyFilterCommands :: "ApplicationCommand list \<Rightarrow> app \<Rightarrow> app" where
  "applyFilterCommands [] s = s"
| "applyFilterCommands (cmd # cmds) s =
     applyFilterCommands cmds (if command cmd = CHANNEL then s\<lparr>channel := opt0 cmd\<rparr> else s)"

text \<open>
  \<^verbatim>\<open>handleIncomingMidiMessage\<close>, up to the end of the block \<^verbatim>\<open>if (msg.isController())\<close>.
  With a filter command present the local \<^verbatim>\<open>filtered\<close> stays \<^verbatim>\<open>false\<close> and the handler
  returns. The arguments of \<^verbatim>\<open>MidiMessage::noteOn\<close> and \<^verbatim>\<open>noteOff\<close> are kept as passed.
  The assignment to \<^verbatim>\<open>lastTime_\<close> (never read) and the dump of the message on
  \<^verbatim>\<open>std::cerr\<close> that ends the handler change nothing else and are left out.
\<close>

definition handleIncomingMidiMessage :: "MidiMessage \<Rightarrow> app \<Rightarrow> error + app" where
  "handleIncomingMidiMessage msg s =
     (if filterCommands s \<noteq> [] then Inr (applyFilterCommands (filterCommands s) s)
      else
        (case msg of
           Controller ch number val \<Rightarrow>
             (let pedalIdx = pedalIndex val in
              if number = 104 then
                (if 0 \<le> pedalIdx \<and> pedalIdx \<le> 3 then
                   Inr (sendMidiMessage
                          (NoteOn (channel s) (baseNote s + mode s + pedalIdx) 127) s)
                 else if pedalIdx = RECORD then
                   (let s1 = s\<lparr>mode := (if mode s > 0 then 0 else 20)\<rparr> in
                    andThen (if mode s1 = 0 then ledOff pedalIdx s1 else ledOn pedalIdx s1)
                      updateLoops)
                 else if pedalIdx = UNDO then
                   andThen (ledOn pedalIdx s)
                     (\<lambda>s1. Inr (sendMidiMessage
                                  (NoteOn (channel s1) (baseNote s1 + pedalIdx) 127) s1))
                 else
                   Inr (sendMidiMessage (NoteOn (channel s) (baseNote s + pedalIdx) 127) s))
              else if number = 105 then
                (if 0 \<le> pedalIdx \<and> pedalIdx \<le> 3 then
                   Inr (sendMidiMessage
                          (NoteOff (channel s) (baseNote s + mode s + pedalIdx) 0) s)
                 else if pedalIdx = RECORD then Inr s
                 else if pedalIdx = UNDO then
                   andThen (ledOff pedalIdx s)
                     (\<lambda>s1. updateLoops
                             (sendMidiMessage
                                (NoteOff (channel s1) (baseNote s1 + pedalIdx) 0) s1))
                 else
                   Inr (sendMidiMessage (NoteOff (channel s) (baseNote s + pedalIdx) 0) s))
              else Inr (if virtMidiOut s then emit (MidiSent msg) s else s))
         | _ \<Rightarrow> Inr s))"

section \<open>Notions used to state the properties\<close>

text \<open>A sequence of handlers run one after the other, stopping at the first error.\<close>

fun run :: "(app \<Rightarrow> error + app) list \<Rightarrow> app \<Rightarrow> error + app" where
  "run [] s = Inr s"
| "run (f # fs) s = andThen (f s) (run fs)"

fun isOscSent :: "event \<Rightarrow> bool" where
  "isOscSent (OscSent _ _) = True"
| "isOscSent _ = False"

fun isCc :: "event \<Rightarrow> bool" where
  "isCc (Cc _ _) = True"
| "isCc _ = False"

fun isMidiSent :: "event \<Rightarrow> bool" where
  "isMidiSent (MidiSent _) = True"
| "isMidiSent _ = False"

text \<open>
  The state after the first tick of a fresh process when both sockets can be opened:
  the session is established and the countdown is 5.
\<close>

definition established :: app where
  "established = timerCallback True True initial"

definition heartbeatPing :: event where
  "heartbeatPing =
     OscSent ''/ping'' [OString ''osc.udp://localhost:9000/'', OString ''/heartbeat'']"

text \<open>
  The table of the specification (section 4.2), in its words: for a new state and the
  mode, the LED's visual state, its timer and whether it is on.
\<close>

definition specLedTable :: "LoopStates \<Rightarrow> int \<Rightarrow> LedStates \<times> int \<times> bool" where
  "specLedTable newState m =
     (if newState \<in> {WaitStart, WaitStop} then (FastBlink, TIMER_FASTBLINK, True)
      else if newState \<in> {Recording, Overdubbing, Delay, Scratching, OneShot}
        then (Light, TIMER_OFF, True)
      else if newState \<in> {Inserting, Replacing, Substitute, Multiplying}
        then (FastBlink, TIMER_FASTBLINK, True)
      else if newState = Playing
        then (if m = 0 then (Light, TIMER_OFF, True) else (Blink, TIMER_BLINK, True))
      else if newState \<in> {Muted, Paused} then (Blink, TIMER_BLINK, True)
      else (Dark, TIMER_OFF, False))"

text \<open>The shared action LED that belongs to a loop state, if any.\<close>

definition actionLed :: "LoopStates \<Rightarrow> int option" where
  "actionLed st =
     (if st = Inserting then Some INSERT
      else if st = Replacing then Some REPLACE
      else if st = Substitute then Some SUBSTITUTE
      else if st = Multiplying then Some MULTIPLY
      else None)"

text \<open>
  The LEDs 5 to 8 are loop LEDs and shared action LEDs at once. A change of state of a loop
  whose own LED is the action LED of its previous state, to a state that lights the loop's
  LED, is the case in which the cleanup of \<^verbatim>\<open>updateLoopLedState\<close> switches off the LED
  that the same call has just switched on.
\<close>

definition ownLedCleared :: "Loop \<Rightarrow> LoopStates \<Rightarrow> int \<Rightarrow> bool" where
  "ownLedCleared loop newState m \<longleftrightarrow>
     newState \<noteq> loop_state loop \<and> actionLed (loop_state loop) = Some (loop_index loop) \<and>
     snd (snd (specLedTable newState m))"

text \<open>The LED events (the line on \<^verbatim>\<open>std::cout\<close> and the broadcast) of one LED write.\<close>

fun isLedEvent :: "event \<Rightarrow> bool" where
  "isLedEvent (Cc _ _) = True"
| "isLedEvent (LedOscSent _ _) = True"
| "isLedEvent _ = False"

text \<open>
  A step that changes nothing but the LED pool (keeping its size) and appends LED events.
\<close>

definition onlyLeds :: "app \<Rightarrow> app \<Rightarrow> bool" where
  "onlyLeds s s' \<longleftrightarrow>
     (\<exists>L evs. s' = s\<lparr>leds := L, events := events s @ evs\<rparr> \<and>
        length L = length (leds s) \<and> list_all isLedEvent evs)"

text \<open>
  Well-formed messages: \<^verbatim>\<open>/pingack\<close> and \<^verbatim>\<open>/heartbeat\<close> carry
  \<^verbatim>\<open>(hostUrl, version, loopCount, engineId)\<close>, \<^verbatim>\<open>/ctrl\<close> carries
  \<^verbatim>\<open>(loopIndex, key, value)\<close>.
\<close>

definition looperInfo :: "int \<Rightarrow> int \<Rightarrow> OSCArgument list" where
  "looperInfo n uid = [OString ''x'', OString ''1.0'', OInt32 n, OInt32 uid]"

definition ctrlState :: "int \<Rightarrow> LoopStates \<Rightarrow> OSCArgument list" where
  "ctrlState i st = [OInt32 i, OString ''state'', OFloat32 st]"

text \<open>
  The established session with one loop per element of the list, loop \<open>i\<close> in the
  \<open>i\<close>-th state of the list and bound to LED \<open>i\<close>, as \<^verbatim>\<open>/pingack\<close> followed by \<^verbatim>\<open>/ctrl\<close>
  messages leaves them.
\<close>

definition loopsOf :: "LoopStates list \<Rightarrow> Loop list" where
  "loopsOf sts =
     map (\<lambda>(i, st). \<lparr>loop_index = int i, loop_state = st, loop_led = i\<rparr>) (enumerate 0 sts)"

definition withLoops :: "LoopStates list \<Rightarrow> app" where
  "withLoops sts = established\<lparr>loops := loopsOf sts, loopCount := int (length sts)\<rparr>"

text \<open>The established session once the virtual MIDI output exists.\<close>

definition withMidiOut :: app where
  "withMidiOut = established\<lparr>virtMidiOut := True\<rparr>"

text \<open>
  A loop as the handlers create it: its index is within the pool of 10 LEDs and its LED
  reference is the LED of that index.
\<close>

definition loopOk :: "Loop \<Rightarrow> bool" where
  "loopOk l \<longleftrightarrow> 0 \<le> loop_index l \<and> loop_index l < 10 \<and> loop_led l = nat (loop_index l)"

text \<open>
  The outcome of a step that can fail only by an access outside the LED pool and that
  keeps the size of the pool and the stored loop count.
\<close>

definition ledsKept :: "error + app \<Rightarrow> app \<Rightarrow> bool" where
  "ledsKept r s \<longleftrightarrow>
     (case r of Inl e \<Rightarrow> e = LedIndexOutOfRange
      | Inr s' \<Rightarrow> length (leds s') = length (leds s) \<and> loopCount s' = loopCount s)"

text \<open>An LED that shows nothing: dark, timer off, switched off.\<close>

definition isDark :: "LED \<Rightarrow> bool" where
  "isDark l \<longleftrightarrow> led_state l = Dark \<and> led_timer l = TIMER_OFF \<and> led_on l = False"

text \<open>The loop collection as it is right after creation: \<open>n\<close> loops, all Off.\<close>

definition offLoops :: "nat \<Rightarrow> Loop list" where
  "offLoops n = map (\<lambda>j. \<lparr>loop_index = int j, loop_state = Off, loop_led = j\<rparr>) [0..<n]"

text \<open>
  The two requests that go to the looper for loop \<open>j\<close>: registration for automatic state
  updates and the query of the current state.
\<close>

definition registerRequest :: "app \<Rightarrow> nat \<Rightarrow> event" where
  "registerRequest s j =
     OscSent (''/sl/'' @ to_string (int j) @ ''/register_auto_update'')
       [OString ''state'', OInt32 100, OString (replyUrl s), OString ''/ctrl'']"

definition getRequest :: "app \<Rightarrow> nat \<Rightarrow> event" where
  "getRequest s j =
     OscSent (''/sl/'' @ to_string (int j) @ ''/get'')
       [OString ''state'', OString (replyUrl s), OString ''/ctrl'']"

text \<open>
  A step that changes nothing but the LED pool (keeping its size), the loop collection
  and the events.
\<close>

definition loopsStep :: "app \<Rightarrow> app \<Rightarrow> bool" where
  "loopsStep s s' \<longleftrightarrow>
     (\<exists>L lo evs. s' = s\<lparr>leds := L, loops := lo, events := events s @ evs\<rparr> \<and>
        length L = length (leds s))"

text \<open>The LED pool has its 10 LEDs and the stored loop count does not exceed it.\<close>

definition poolInv :: "app \<Rightarrow> bool" where
  "poolInv s \<longleftrightarrow> length (leds s) = 10 \<and> loopCount s \<le> 10"

section \<open>Evaluation rules\<close>

lemmas LoopStates_defs =
  Unknown_def Off_def WaitStart_def Recording_def WaitStop_def Playing_def
  Overdubbing_def Multiplying_def Inserting_def Replacing_def Delay_def Muted_def
  Scratching_def OneShot_def Substitute_def Paused_def

lemmas pedal_defs =
  UP_def DOWN_def RECORD_def MULTIPLY_def INSERT_def REPLACE_def SUBSTITUTE_def UNDO_def

lemmas timer_defs = TIMER_OFF_def TIMER_FASTBLINK_def TIMER_BLINK_def

lemma digitsOf_lt10: "n < 10 \<Longrightarrow> digitsOf n = [''0123456789'' ! n]"
  by (simp add: digitsOf.simps)

lemma digitsOf_ge10:
  "\<not> n < 10 \<Longrightarrow> digitsOf n = digitsOf (n div 10) @ [''0123456789'' ! (n mod 10)]"
  by (subst digitsOf.simps) simp

lemmas to_string_eval = to_string_def digitsOf_lt10 digitsOf_ge10

lemma established_eq:
  "established =
   initial\<lparr>currentSendPort := 9951, currentReceivePort := 9000, heartbeat := 5,
     events := [Stderr ''Successfully connected to OSC Send port 9951'',
       OscSent ''/ping'' [OString ''osc.udp://localhost:9000/'', OString ''/pingack''],
       Stderr ''Connected to OSC ports 9000 (in), 9951 (out) and -1 (led)'']\<rparr>"
  by (simp add: established_def timerCallback_def tryToConnectOsc_def connect_def
      isValidOscPort_def initial_def emit_def replyUrl_def to_string_eval)

section \<open>LED writes\<close>

lemma andThen_Inr [simp]: "andThen (Inr x) f = f x"
  by (simp add: andThen_def)

lemma andThen_Inl [simp]: "andThen (Inl e) f = Inl e"
  by (simp add: andThen_def)

lemma andThen_return [simp]: "andThen r Inr = r"
  by (cases r) simp_all

lemma ledOn_eq: "ledOn p = setLed 106 p True"
  by (rule ext) (simp add: ledOn_def)

lemma ledOff_eq: "ledOff p = setLed 107 p False"
  by (rule ext) (simp add: ledOff_def)

lemma setLed_in_range:
  assumes "0 \<le> p" "p < int (length (leds s))"
  shows "setLed cc p v s =
         Inr (s\<lparr>leds := (leds s)[nat p := (leds s ! nat p)\<lparr>led_on := v\<rparr>],
                events := events s @ Cc cc (ledNumber p) #
                  (if oscLedSenderInitialized s
                   then [LedOscSent ''/led'' (ledOscArgs ((leds s ! nat p)\<lparr>led_on := v\<rparr>))]
                   else [])\<rparr>)"
  using assms by (simp add: setLed_def emit_def Let_def)

lemma setLed_out_of_range:
  assumes "p < 0 \<or> int (length (leds s)) \<le> p"
  shows "setLed cc p v s = Inl LedIndexOutOfRange"
  using assms by (auto simp add: setLed_def emit_def Let_def)

lemma actionLed_cases:
  "actionLed st = None \<or> actionLed st = Some 5 \<or> actionLed st = Some 6 \<or>
   actionLed st = Some 7 \<or> actionLed st = Some 8"
  by (simp add: actionLed_def pedal_defs)

text \<open>The first switch does what the table says: the implementation refines the table.\<close>

lemma applyNewState_table:
  "applyNewState loop newState s =
   (case specLedTable newState (mode s) of
      (st, t, on) \<Rightarrow>
        andThen (setLed (if on then 106 else 107) (loop_index loop) on (setLoopLed loop st t s))
          (\<lambda>s1. case actionLed newState of None \<Rightarrow> Inr s1 | Some a \<Rightarrow> ledOn a s1))"
  by (simp add: applyNewState_def specLedTable_def actionLed_def ledOn_eq ledOff_eq
      LoopStates_defs)

lemma turnOffPrevious_table:
  "turnOffPrevious prev s = (case actionLed prev of None \<Rightarrow> Inr s | Some a \<Rightarrow> ledOff a s)"
  by (simp add: turnOffPrevious_def actionLed_def LoopStates_defs)

lemma setLoopLed_simps [simp]:
  "leds (setLoopLed loop st t s) =
     (leds s)[loop_led loop := (leds s ! loop_led loop)\<lparr>led_state := st, led_timer := t\<rparr>]"
  "events (setLoopLed loop st t s) = events s"
  "oscLedSenderInitialized (setLoopLed loop st t s) = oscLedSenderInitialized s"
  by (simp_all add: setLoopLed_def)

lemma onlyLedsI:
  "length L = length (leds s) \<Longrightarrow> list_all isLedEvent evs \<Longrightarrow>
   onlyLeds s (s\<lparr>leds := L, events := events s @ evs\<rparr>)"
  unfolding onlyLeds_def by blast

lemma onlyLeds_refl: "onlyLeds s s"
  using onlyLedsI [of "leds s" s "[]"] by simp

lemma onlyLeds_trans:
  assumes "onlyLeds s s1" "onlyLeds s1 s2"
  shows "onlyLeds s s2"
proof -
  obtain L evs where 1: "s1 = s\<lparr>leds := L, events := events s @ evs\<rparr>"
    "length L = length (leds s)" "list_all isLedEvent evs"
    using assms(1) unfolding onlyLeds_def by blast
  obtain L' evs' where 2: "s2 = s1\<lparr>leds := L', events := events s1 @ evs'\<rparr>"
    "length L' = length (leds s1)" "list_all isLedEvent evs'"
    using assms(2) unfolding onlyLeds_def by blast
  have "s2 = s\<lparr>leds := L', events := events s @ (evs @ evs')\<rparr>"
    using 1(1) 2(1) by simp
  moreover have "length L' = length (leds s)" using 1 2 by simp
  moreover have "list_all isLedEvent (evs @ evs')" using 1 2 by simp
  ultimately show ?thesis using onlyLedsI by metis
qed

text \<open>
  The effect of the first switch on a loop whose LED is in the pool: no failure, only
  LEDs and events change, the loop's LED is as the table says, and the action LED of the
  new state is on.
\<close>

lemma applyNewState_result:
  assumes len: "length (leds s) = 10"
    and i: "loop_index loop = int i" "i < 10" "loop_led loop = i"
    and tab: "specLedTable newState (mode s) = (st, t, on)"
  shows "\<exists>s1. applyNewState loop newState s = Inr s1 \<and> onlyLeds s s1 \<and>
           leds s1 ! i = (leds s ! i)\<lparr>led_state := st, led_timer := t, led_on := on\<rparr> \<and>
           (case actionLed newState of None \<Rightarrow> True | Some a \<Rightarrow> led_on (leds s1 ! nat a)) \<and>
           filter isCc (drop (length (events s)) (events s1)) =
             Cc (if on then 106 else 107) (ledNumber (int i)) #
             (case actionLed newState of None \<Rightarrow> [] | Some a \<Rightarrow> [Cc 106 (ledNumber a)])"
proof -
  let ?s0 = "setLoopLed loop st t s"
  have r0: "0 \<le> int i" "int i < int (length (leds ?s0))"
    using len i by simp_all
  note first = setLed_in_range [OF r0, of "if on then 106 else 107" on]
  have act_on: "on" if "actionLed newState \<noteq> None"
    using that tab by (auto simp add: actionLed_def specLedTable_def split: if_splits)
  show ?thesis
    using actionLed_cases [of newState] len i act_on
    by (auto simp add: applyNewState_table tab first ledOn_eq setLed_in_range setLoopLed_def
        nth_list_update intro!: onlyLedsI)
qed

lemma onlyLeds_fields:
  assumes "onlyLeds s s'"
  shows "loops s' = loops s" "mode s' = mode s" "length (leds s') = length (leds s)"
    "heartbeat s' = heartbeat s" "engineId s' = engineId s" "loopCount s' = loopCount s"
    "selectedLoop s' = selectedLoop s" "hostUrl s' = hostUrl s" "version s' = version s"
    "currentReceivePort s' = currentReceivePort s" "currentSendPort s' = currentSendPort s"
    "oscLedSenderInitialized s' = oscLedSenderInitialized s"
    "virtMidiOut s' = virtMidiOut s" "channel s' = channel s" "baseNote s' = baseNote s"
    "filterCommands s' = filterCommands s"
    "missingOutputPortWarningPrinted s' = missingOutputPortWarningPrinted s"
  using assms unfolding onlyLeds_def by auto

lemma onlyLeds_events:
  assumes "onlyLeds s s'"
  shows "events s' = events s @ drop (length (events s)) (events s')"
    "list_all isLedEvent (drop (length (events s)) (events s'))"
  using assms unfolding onlyLeds_def by auto

lemma actionLed_inj: "actionLed x = Some a \<Longrightarrow> actionLed y = Some a \<Longrightarrow> x = y"
  by (simp add: actionLed_def pedal_defs split: if_splits)

lemma turnOffPrevious_result:
  assumes len: "length (leds s) = 10"
  shows "\<exists>s2. turnOffPrevious prev s = Inr s2 \<and> onlyLeds s s2 \<and>
           leds s2 = (case actionLed prev of None \<Rightarrow> leds s
                      | Some a \<Rightarrow> (leds s)[nat a := (leds s ! nat a)\<lparr>led_on := False\<rparr>]) \<and>
           filter isCc (drop (length (events s)) (events s2)) =
             (case actionLed prev of None \<Rightarrow> [] | Some a \<Rightarrow> [Cc 107 (ledNumber a)])"
  using actionLed_cases [of prev] len
  by (auto simp add: turnOffPrevious_table ledOff_eq setLed_in_range onlyLeds_refl
      intro!: onlyLedsI)

text \<open>
  \<^verbatim>\<open>updateLoopLedState\<close> on a loop whose LED is in the pool, step by step: the first
  switch gives \<open>s1\<close>, the second switch gives \<open>s2\<close>, and the state is stored last.
\<close>

lemma updateLoopLedState_result:
  assumes len: "length (leds s) = 10" and k: "k < length (loops s)"
    and i: "loop_index (loops s ! k) = int i" "i < 10" "loop_led (loops s ! k) = i"
    and tab: "specLedTable newState (mode s) = (st, t, on)"
  obtains s1 s2 where
    "updateLoopLedState k newState s =
       Inr (s2\<lparr>loops := (loops s)[k := (loops s ! k)\<lparr>loop_state := newState\<rparr>]\<rparr>)"
    "onlyLeds s s1" "onlyLeds s1 s2"
    "leds s1 ! i = (leds s ! i)\<lparr>led_state := st, led_timer := t, led_on := on\<rparr>"
    "case actionLed newState of None \<Rightarrow> True | Some a \<Rightarrow> led_on (leds s1 ! nat a)"
    "filter isCc (drop (length (events s)) (events s1)) =
       Cc (if on then 106 else 107) (ledNumber (int i)) #
       (case actionLed newState of None \<Rightarrow> [] | Some a \<Rightarrow> [Cc 106 (ledNumber a)])"
    "leds s2 =
       (if newState \<noteq> loop_state (loops s ! k)
        then (case actionLed (loop_state (loops s ! k)) of None \<Rightarrow> leds s1
              | Some a \<Rightarrow> (leds s1)[nat a := (leds s1 ! nat a)\<lparr>led_on := False\<rparr>])
        else leds s1)"
    "filter isCc (drop (length (events s1)) (events s2)) =
       (if newState \<noteq> loop_state (loops s ! k)
        then (case actionLed (loop_state (loops s ! k)) of None \<Rightarrow> []
              | Some a \<Rightarrow> [Cc 107 (ledNumber a)])
        else [])"
proof -
  let ?loop = "loops s ! k"
  obtain s1 where s1: "applyNewState ?loop newState s = Inr s1" "onlyLeds s s1"
    "leds s1 ! i = (leds s ! i)\<lparr>led_state := st, led_timer := t, led_on := on\<rparr>"
    "case actionLed newState of None \<Rightarrow> True | Some a \<Rightarrow> led_on (leds s1 ! nat a)"
    "filter isCc (drop (length (events s)) (events s1)) =
       Cc (if on then 106 else 107) (ledNumber (int i)) #
       (case actionLed newState of None \<Rightarrow> [] | Some a \<Rightarrow> [Cc 106 (ledNumber a)])"
    using applyNewState_result [OF len i tab] by blast
  have len1: "length (leds s1) = 10"
    using onlyLeds_fields(3) [OF s1(2)] len by simp
  have loops1: "loops s1 = loops s"
    using onlyLeds_fields(1) [OF s1(2)] .
  let ?second = "if newState \<noteq> loop_state ?loop then turnOffPrevious (loop_state ?loop) s1
                 else Inr s1"
  obtain s2 where s2: "?second = Inr s2" "onlyLeds s1 s2"
    "leds s2 =
       (if newState \<noteq> loop_state ?loop
        then (case actionLed (loop_state ?loop) of None \<Rightarrow> leds s1
              | Some a \<Rightarrow> (leds s1)[nat a := (leds s1 ! nat a)\<lparr>led_on := False\<rparr>])
        else leds s1)"
    "filter isCc (drop (length (events s1)) (events s2)) =
       (if newState \<noteq> loop_state ?loop
        then (case actionLed (loop_state ?loop) of None \<Rightarrow> []
              | Some a \<Rightarrow> [Cc 107 (ledNumber a)])
        else [])"
  proof (cases "newState \<noteq> loop_state ?loop")
    case True
    then show ?thesis
      using turnOffPrevious_result [OF len1, of "loop_state ?loop"] that by auto
  next
    case False
    then show ?thesis
      using that [of s1] onlyLeds_refl [of s1] by simp
  qed
  have loops2: "loops s2 = loops s"
    using onlyLeds_fields(1) [OF s2(2)] loops1 by simp
  have "updateLoopLedState k newState s =
        Inr (s2\<lparr>loops := (loops s)[k := (loops s ! k)\<lparr>loop_state := newState\<rparr>]\<rparr>)"
    using s1(1) s2(1) loops2 by (simp add: updateLoopLedState_def Let_def)
  then show ?thesis
    using that s1 s2 by blast
qed

lemmas handler_eval =
  handlePingAckMessage_def handleCtrlMessage_def handleHeartbeatMessage_def
  pingAckLoops.simps rebuildLoops.simps extendLoops.simps addLoop_def
  registerAutoUpdates_def getCurrentState_def registerGlobalUpdates_def
  updateLoops_def updateLoopLedState_def applyNewState_def turnOffPrevious_def
  ledOn_def ledOff_def setLed_def setLoopLed_def ledNumber_def ledOscArgs_def selectLoop_def
  emit_def replyUrl_def to_string_eval looperInfo_def ctrlState_def
  established_eq initial_def initialLeds_def Let_def
  LoopStates_defs pedal_defs timer_defs DEFAULT_BASE_NOTE_def

section \<open>Building the loop collection\<close>

lemma ledsKept_Inr [simp]:
  "ledsKept (Inr s') s \<longleftrightarrow> length (leds s') = length (leds s) \<and> loopCount s' = loopCount s"
  by (simp add: ledsKept_def)

lemma ledsKept_Inl [simp]: "ledsKept (Inl e) s \<longleftrightarrow> e = LedIndexOutOfRange"
  by (simp add: ledsKept_def)

lemma ledsKept_andThen:
  assumes "ledsKept r s"
    and "\<And>s1. r = Inr s1 \<Longrightarrow> ledsKept (f s1) s1"
  shows "ledsKept (andThen r f) s"
proof (cases r)
  case (Inl e)
  then show ?thesis using assms(1) by simp
next
  case (Inr s1)
  then have "length (leds s1) = length (leds s)" "loopCount s1 = loopCount s"
    using assms(1) by simp_all
  moreover have "ledsKept (f s1) s1" using assms(2) Inr by simp
  ultimately show ?thesis using Inr by (cases "f s1") simp_all
qed

lemma setLed_kept: "ledsKept (setLed cc p v s) s"
  by (simp add: setLed_def emit_def Let_def)

lemma setLed_kept':
  "length (leds s0) = length (leds s) \<Longrightarrow> loopCount s0 = loopCount s \<Longrightarrow>
   ledsKept (setLed cc p v s0) s"
  using setLed_kept [of cc p v s0] by (simp add: ledsKept_def split: sum.splits)

lemma applyNewState_kept: "ledsKept (applyNewState loop newState s) s"
proof -
  obtain st t on where tab: "specLedTable newState (mode s) = (st, t, on)"
    by (cases "specLedTable newState (mode s)") auto
  have first: "ledsKept (setLed (if on then 106 else 107) (loop_index loop) on
                  (setLoopLed loop st t s)) s"
    by (rule setLed_kept') (simp_all add: setLoopLed_def)
  show ?thesis
    unfolding applyNewState_table tab prod.case
    by (rule ledsKept_andThen [OF first])
      (auto simp add: ledOn_eq setLed_kept split: option.splits)
qed

lemma turnOffPrevious_kept: "ledsKept (turnOffPrevious prev s) s"
  by (auto simp add: turnOffPrevious_table ledOff_eq setLed_kept split: option.splits)

lemma updateLoopLedState_kept: "ledsKept (updateLoopLedState k newState s) s"
  unfolding updateLoopLedState_def Let_def
  by (intro ledsKept_andThen applyNewState_kept) (auto simp add: turnOffPrevious_kept)

lemma updateLoopsFrom_kept: "ledsKept (updateLoopsFrom ks s) s"
proof (induction ks arbitrary: s)
  case Nil
  then show ?case by simp
next
  case (Cons k ks)
  show ?case
    unfolding updateLoopsFrom.simps
    by (rule ledsKept_andThen [OF updateLoopLedState_kept]) (rule Cons.IH)
qed

lemma updateLoops_kept: "ledsKept (updateLoops s) s"
  by (simp add: updateLoops_def updateLoopsFrom_kept)

lemma addLoop_cases:
  "(0 \<le> i \<and> i < int (length (leds s)) \<and>
     addLoop i s =
       Inr (s\<lparr>loops := loops s @ [\<lparr>loop_index = i, loop_state = Off, loop_led = nat i\<rparr>]\<rparr>)) \<or>
   ((i < 0 \<or> int (length (leds s)) \<le> i) \<and> addLoop i s = Inl LedIndexOutOfRange)"
  by (auto simp add: addLoop_def)

lemma request_simps [simp]:
  "leds (getCurrentState i s) = leds s" "leds (registerAutoUpdates i u s) = leds s"
  "leds (registerGlobalUpdates u s) = leds s"
  "loops (getCurrentState i s) = loops s" "loops (registerAutoUpdates i u s) = loops s"
  "loops (registerGlobalUpdates u s) = loops s"
  "loopCount (getCurrentState i s) = loopCount s"
  "loopCount (registerAutoUpdates i u s) = loopCount s"
  "loopCount (registerGlobalUpdates u s) = loopCount s"
  by (simp_all add: getCurrentState_def registerAutoUpdates_def registerGlobalUpdates_def
      emit_def)

text \<open>A loop that has to create loop 10 fails, whatever happens before.\<close>

lemma pingAckLoops_overflow:
  assumes "length (leds s) = 10" "i \<le> 10" "10 < n"
  shows "pingAckLoops i n s = Inl LedIndexOutOfRange"
  using assms
proof (induction i n s rule: pingAckLoops.induct)
  case (1 i n s)
  have lt: "i < n" using "1.prems" by simp
  from addLoop_cases [of i s] show ?case
  proof
    assume ok: "0 \<le> i \<and> i < int (length (leds s)) \<and>
      addLoop i s =
        Inr (s\<lparr>loops := loops s @ [\<lparr>loop_index = i, loop_state = Off, loop_led = nat i\<rparr>]\<rparr>)"
    let ?s1 = "s\<lparr>loops := loops s @ [\<lparr>loop_index = i, loop_state = Off, loop_led = nat i\<rparr>]\<rparr>"
    have "pingAckLoops (i + 1) n (getCurrentState i (registerAutoUpdates i False ?s1)) =
          Inl LedIndexOutOfRange"
      using ok "1.prems" lt by (intro "1.IH") simp_all
    then show ?thesis
      using ok lt by (subst pingAckLoops.simps) simp
  next
    assume "(i < 0 \<or> int (length (leds s)) \<le> i) \<and> addLoop i s = Inl LedIndexOutOfRange"
    then show ?thesis
      using lt by (subst pingAckLoops.simps) simp
  qed
qed

lemma rebuildLoops_overflow:
  assumes "length (leds s) = 10" "i \<le> 10" "10 < n"
  shows "rebuildLoops i n s = Inl LedIndexOutOfRange"
  using assms
proof (induction i n s rule: rebuildLoops.induct)
  case (1 i n s)
  have lt: "i < n" using "1.prems" by simp
  from addLoop_cases [of i s] show ?case
  proof
    assume ok: "0 \<le> i \<and> i < int (length (leds s)) \<and>
      addLoop i s =
        Inr (s\<lparr>loops := loops s @ [\<lparr>loop_index = i, loop_state = Off, loop_led = nat i\<rparr>]\<rparr>)"
    let ?s1 = "s\<lparr>loops := loops s @ [\<lparr>loop_index = i, loop_state = Off, loop_led = nat i\<rparr>]\<rparr>"
    let ?s1' = "getCurrentState i (registerAutoUpdates i False ?s1)"
    show ?thesis
    proof (cases "updateLoops ?s1'")
      case (Inl e)
      then have "e = LedIndexOutOfRange"
        using updateLoops_kept [of ?s1'] by simp
      then show ?thesis
        using ok lt Inl by (subst rebuildLoops.simps) simp
    next
      case (Inr s2)
      then have "length (leds s2) = 10"
        using updateLoops_kept [of ?s1'] "1.prems"(1) by simp
      then have "rebuildLoops (i + 1) n s2 = Inl LedIndexOutOfRange"
        using ok "1.prems" lt Inr by (intro "1.IH") simp_all
      then show ?thesis
        using ok lt Inr by (subst rebuildLoops.simps) simp
    qed
  next
    assume "(i < 0 \<or> int (length (leds s)) \<le> i) \<and> addLoop i s = Inl LedIndexOutOfRange"
    then show ?thesis
      using lt by (subst rebuildLoops.simps) simp
  qed
qed

lemma extendLoops_overflow:
  assumes "length (leds s) = 10" "i \<le> 10" "10 < n"
  shows "extendLoops i n s = Inl LedIndexOutOfRange"
  using assms
proof (induction i n s rule: extendLoops.induct)
  case (1 i n s)
  have lt: "i < n" using "1.prems" by simp
  let ?s0 = "registerAutoUpdates i False s"
  from addLoop_cases [of i ?s0] show ?case
  proof
    assume ok: "0 \<le> i \<and> i < int (length (leds ?s0)) \<and>
      addLoop i ?s0 =
        Inr (?s0\<lparr>loops := loops ?s0 @ [\<lparr>loop_index = i, loop_state = Off, loop_led = nat i\<rparr>]\<rparr>)"
    let ?s1 = "?s0\<lparr>loops := loops ?s0 @ [\<lparr>loop_index = i, loop_state = Off, loop_led = nat i\<rparr>]\<rparr>"
    show ?thesis
    proof (cases "updateLoops ?s1")
      case (Inl e)
      then have "e = LedIndexOutOfRange"
        using updateLoops_kept [of ?s1] by simp
      then show ?thesis
        using ok lt Inl by (subst extendLoops.simps) simp
    next
      case (Inr s2)
      then have "length (leds s2) = 10"
        using updateLoops_kept [of ?s1] "1.prems"(1) by simp
      then have "extendLoops (i + 1) n s2 = Inl LedIndexOutOfRange"
        using ok "1.prems" lt Inr by (intro "1.IH") simp_all
      then show ?thesis
        using ok lt Inr by (subst extendLoops.simps) simp
    qed
  next
    assume "(i < 0 \<or> int (length (leds ?s0)) \<le> i) \<and> addLoop i ?s0 = Inl LedIndexOutOfRange"
    then show ?thesis
      using lt by (subst extendLoops.simps) simp
  qed
qed

lemma pingAckArgs_keeps:
  "leds (pingAckArgs i m s) = leds s"
  "loops (pingAckArgs i m s) = loops s"
  "3 \<le> i \<Longrightarrow> loopCount (pingAckArgs i m s) = loopCount s"
  by (induction m arbitrary: i s) (auto simp add: emit_def split: OSCArgument.splits)

lemma heartbeatArgs_keeps:
  "leds (snd (snd (heartbeatArgs i m (nl, uid, s)))) = leds s"
  "loops (snd (snd (heartbeatArgs i m (nl, uid, s)))) = loops s"
  "loopCount (snd (snd (heartbeatArgs i m (nl, uid, s)))) = loopCount s"
  "engineId (snd (snd (heartbeatArgs i m (nl, uid, s)))) = engineId s"
  "3 \<le> i \<Longrightarrow> fst (heartbeatArgs i m (nl, uid, s)) = nl"
  by (induction m arbitrary: i nl uid s) (auto simp add: emit_def split: OSCArgument.splits)

lemma loop_state_same: "l\<lparr>loop_state := loop_state l\<rparr> = l"
  by simp

lemma isLedEvent_not_osc: "list_all isLedEvent evs \<Longrightarrow> filter isOscSent evs = []"
proof (induction evs)
  case Nil
  then show ?case by simp
next
  case (Cons e evs)
  then show ?case by (cases e) simp_all
qed

text \<open>Refreshing a loop (new state = stored state) touches LEDs and events only.\<close>

lemma refresh_step:
  assumes len: "length (leds s) = 10" and k: "k < length (loops s)"
    and ok: "loopOk (loops s ! k)"
  shows "\<exists>s'. updateLoopLedState k (loop_state (loops s ! k)) s = Inr s' \<and> onlyLeds s s'"
proof -
  let ?loop = "loops s ! k"
  define i where "i = nat (loop_index ?loop)"
  have i: "loop_index ?loop = int i" "i < 10" "loop_led ?loop = i"
    using ok by (auto simp add: loopOk_def i_def)
  obtain st t on where tab: "specLedTable (loop_state ?loop) (mode s) = (st, t, on)"
    by (cases "specLedTable (loop_state ?loop) (mode s)") auto
  from updateLoopLedState_result [OF len k i tab]
  obtain s1 s2 where r:
    "updateLoopLedState k (loop_state ?loop) s =
       Inr (s2\<lparr>loops := (loops s)[k := ?loop\<lparr>loop_state := loop_state ?loop\<rparr>]\<rparr>)"
    "onlyLeds s s1" "onlyLeds s1 s2"
    by blast
  have o: "onlyLeds s s2" using r(2,3) by (rule onlyLeds_trans)
  have "loops s2 = loops s" using onlyLeds_fields(1) [OF o] .
  then have "s2\<lparr>loops := (loops s)[k := ?loop\<lparr>loop_state := loop_state ?loop\<rparr>]\<rparr> = s2"
    by simp
  then show ?thesis using r(1) o by simp
qed

lemma updateLoopsFrom_refresh:
  assumes "length (leds s) = 10" "list_all loopOk (loops s)"
    and "\<forall>k\<in>set ks. k < length (loops s)"
  shows "\<exists>s'. updateLoopsFrom ks s = Inr s' \<and> onlyLeds s s'"
  using assms
proof (induction ks arbitrary: s)
  case Nil
  then show ?case by (simp add: onlyLeds_refl)
next
  case (Cons k ks)
  have k: "k < length (loops s)" using Cons.prems(3) by simp
  then have ok: "loopOk (loops s ! k)"
    using Cons.prems(2) by (simp add: list_all_length)
  obtain s1 where s1: "updateLoopLedState k (loop_state (loops s ! k)) s = Inr s1"
    "onlyLeds s s1"
    using refresh_step [OF Cons.prems(1) k ok] by blast
  have f: "loops s1 = loops s" "length (leds s1) = 10"
    using onlyLeds_fields(1,3) [OF s1(2)] Cons.prems(1) by simp_all
  obtain s' where s': "updateLoopsFrom ks s1 = Inr s'" "onlyLeds s1 s'"
    using Cons.IH [of s1] f Cons.prems(2,3) by auto
  show ?case
    using s1 s' onlyLeds_trans [OF s1(2) s'(2)] by simp
qed

lemma updateLoops_refresh:
  assumes "length (leds s) = 10" "list_all loopOk (loops s)"
  shows "\<exists>s'. updateLoops s = Inr s' \<and> onlyLeds s s'"
  unfolding updateLoops_def
  using assms by (intro updateLoopsFrom_refresh) simp_all

text \<open>Refreshing a loop that is Off makes its LED dark and leaves dark LEDs dark.\<close>

lemma refresh_off_step:
  assumes len: "length (leds s) = 10" and k: "k < length (loops s)"
    and ok: "loopOk (loops s ! k)" and off: "loop_state (loops s ! k) = Off"
  shows "\<exists>s'. updateLoopLedState k Off s = Inr s' \<and> onlyLeds s s' \<and>
           isDark (leds s' ! loop_led (loops s ! k)) \<and>
           (\<forall>j<10. isDark (leds s ! j) \<longrightarrow> isDark (leds s' ! j))"
proof -
  let ?loop = "loops s ! k"
  define i where "i = nat (loop_index ?loop)"
  have i: "loop_index ?loop = int i" "i < 10" "loop_led ?loop = i"
    using ok by (auto simp add: loopOk_def i_def)
  have tab: "specLedTable Off (mode s) = (Dark, TIMER_OFF, False)"
    by (simp add: specLedTable_def LoopStates_defs)
  have act: "actionLed Off = None"
    by (simp add: actionLed_def LoopStates_defs)
  have same: "(loops s)[k := ?loop\<lparr>loop_state := Off\<rparr>] = loops s"
  proof -
    have "?loop\<lparr>loop_state := Off\<rparr> = ?loop"
      using loop_state_same [of ?loop] unfolding off .
    then show ?thesis by simp
  qed
  let ?L = "(leds s)[i := (leds s ! i)\<lparr>led_state := Dark, led_timer := TIMER_OFF, led_on := False\<rparr>]"
  let ?evs = "Cc 107 (ledNumber (int i)) #
     (if oscLedSenderInitialized s
      then [LedOscSent ''/led''
              (ledOscArgs ((leds s ! i)\<lparr>led_state := Dark, led_timer := TIMER_OFF, led_on := False\<rparr>))]
      else [])"
  have eq: "updateLoopLedState k Off s = Inr (s\<lparr>leds := ?L, events := events s @ ?evs\<rparr>)"
    using len i off same
    by (simp add: updateLoopLedState_def Let_def applyNewState_table tab act setLed_in_range
        setLoopLed_def)
  have o: "onlyLeds s (s\<lparr>leds := ?L, events := events s @ ?evs\<rparr>)"
    by (rule onlyLedsI) simp_all
  have d: "isDark (?L ! i)"
    using len i(2) by (simp add: isDark_def)
  have p: "\<forall>j<10. isDark (leds s ! j) \<longrightarrow> isDark (?L ! j)"
    using len i(2) by (auto simp add: isDark_def nth_list_update)
  show ?thesis
    using eq o d p i(3) by simp
qed

lemma updateLoopsFrom_off:
  assumes "length (leds s) = 10"
    and "list_all (\<lambda>l. loopOk l \<and> loop_state l = Off) (loops s)"
    and "\<forall>k\<in>set ks. k < length (loops s)"
  shows "\<exists>s'. updateLoopsFrom ks s = Inr s' \<and> onlyLeds s s' \<and>
           (\<forall>k\<in>set ks. isDark (leds s' ! loop_led (loops s ! k))) \<and>
           (\<forall>j<10. isDark (leds s ! j) \<longrightarrow> isDark (leds s' ! j))"
  using assms
proof (induction ks arbitrary: s)
  case Nil
  then show ?case by (simp add: onlyLeds_refl)
next
  case (Cons k ks)
  have k: "k < length (loops s)" using Cons.prems(3) by simp
  then have ok: "loopOk (loops s ! k)" and off: "loop_state (loops s ! k) = Off"
    using Cons.prems(2) by (simp_all add: list_all_length)
  obtain s1 where s1: "updateLoopLedState k Off s = Inr s1" "onlyLeds s s1"
    "isDark (leds s1 ! loop_led (loops s ! k))"
    "\<forall>j<10. isDark (leds s ! j) \<longrightarrow> isDark (leds s1 ! j)"
    using refresh_off_step [OF Cons.prems(1) k ok off] by blast
  have f: "loops s1 = loops s" "length (leds s1) = 10"
    using onlyLeds_fields(1,3) [OF s1(2)] Cons.prems(1) by simp_all
  obtain s' where s': "updateLoopsFrom ks s1 = Inr s'" "onlyLeds s1 s'"
    "\<forall>k\<in>set ks. isDark (leds s' ! loop_led (loops s1 ! k))"
    "\<forall>j<10. isDark (leds s1 ! j) \<longrightarrow> isDark (leds s' ! j)"
    using Cons.IH [of s1] f Cons.prems(2,3) by auto
  have lk: "loop_led (loops s ! k) < 10"
    using ok by (auto simp add: loopOk_def)
  have dk: "isDark (leds s' ! loop_led (loops s ! k))"
    using s1(3) s'(4) lk by blast
  have run: "updateLoopsFrom (k # ks) s = Inr s'"
    using s1(1) s'(1) off by simp
  show ?case
    using run onlyLeds_trans [OF s1(2) s'(2)] dk s'(3) s1(4) s'(4) f(1) by auto
qed

lemma offLoops_nth: "k < n \<Longrightarrow> offLoops n ! k = \<lparr>loop_index = int k, loop_state = Off, loop_led = k\<rparr>"
  by (simp add: offLoops_def)

lemma offLoops_length [simp]: "length (offLoops n) = n"
  by (simp add: offLoops_def)

lemma offLoops_Suc:
  "offLoops (Suc n) = offLoops n @ [\<lparr>loop_index = int n, loop_state = Off, loop_led = n\<rparr>]"
  by (simp add: offLoops_def)

lemma updateLoops_off:
  assumes "length (leds s) = 10" "loops s = offLoops m" "m \<le> 10"
  shows "\<exists>s'. updateLoops s = Inr s' \<and> onlyLeds s s' \<and> (\<forall>j<m. isDark (leds s' ! j))"
proof -
  have all: "list_all (\<lambda>l. loopOk l \<and> loop_state l = Off) (loops s)"
    using assms(2,3) by (simp add: list_all_length offLoops_nth loopOk_def)
  have "\<exists>s'. updateLoopsFrom [0..<length (loops s)] s = Inr s' \<and> onlyLeds s s' \<and>
           (\<forall>k\<in>set [0..<length (loops s)]. isDark (leds s' ! loop_led (loops s ! k))) \<and>
           (\<forall>j<10. isDark (leds s ! j) \<longrightarrow> isDark (leds s' ! j))"
    using assms(1) all by (intro updateLoopsFrom_off) simp_all
  then show ?thesis
    unfolding updateLoops_def using assms(2) by (auto simp add: offLoops_nth)
qed

lemma loopsStepI:
  "length L = length (leds s) \<Longrightarrow>
   loopsStep s (s\<lparr>leds := L, loops := lo, events := events s @ evs\<rparr>)"
  unfolding loopsStep_def by blast

lemma loopsStep_refl: "loopsStep s s"
  using loopsStepI [where L = "leds s" and s = s and lo = "loops s" and evs = "[]"] by simp

lemma onlyLeds_loopsStep: "onlyLeds s s' \<Longrightarrow> loopsStep s s'"
  unfolding onlyLeds_def loopsStep_def
  by (metis app.surjective app.update_convs(2))

lemma loopsStep_trans:
  assumes "loopsStep s s1" "loopsStep s1 s2"
  shows "loopsStep s s2"
proof -
  obtain L lo evs where 1: "s1 = s\<lparr>leds := L, loops := lo, events := events s @ evs\<rparr>"
    "length L = length (leds s)"
    using assms(1) unfolding loopsStep_def by blast
  obtain L' lo' evs' where 2: "s2 = s1\<lparr>leds := L', loops := lo', events := events s1 @ evs'\<rparr>"
    "length L' = length (leds s1)"
    using assms(2) unfolding loopsStep_def by blast
  have "s2 = s\<lparr>leds := L', loops := lo', events := events s @ (evs @ evs')\<rparr>"
    using 1(1) 2(1) by simp
  moreover have "length L' = length (leds s)" using 1 2 by simp
  ultimately show ?thesis using loopsStepI by metis
qed

lemma loopsStep_fields:
  assumes "loopsStep s s'"
  shows "length (leds s') = length (leds s)" "mode s' = mode s"
    "heartbeat s' = heartbeat s" "engineId s' = engineId s" "loopCount s' = loopCount s"
    "selectedLoop s' = selectedLoop s" "hostUrl s' = hostUrl s" "version s' = version s"
    "currentReceivePort s' = currentReceivePort s" "currentSendPort s' = currentSendPort s"
    "replyUrl s' = replyUrl s"
    "events s' = events s @ drop (length (events s)) (events s')"
  using assms unfolding loopsStep_def by (auto simp add: replyUrl_def)

lemma request_events:
  "getCurrentState (int m) (registerAutoUpdates (int m) False s) =
   s\<lparr>events := events s @ [registerRequest s m, getRequest s m]\<rparr>"
  by (simp add: getCurrentState_def registerAutoUpdates_def emit_def replyUrl_def
      registerRequest_def getRequest_def)

lemma request_eq:
  "replyUrl s' = replyUrl s \<Longrightarrow> registerRequest s' = registerRequest s"
  "replyUrl s' = replyUrl s \<Longrightarrow> getRequest s' = getRequest s"
  by (auto simp add: registerRequest_def getRequest_def)

text \<open>
  The loop of the branch \<^verbatim>\<open>uid != engineId_\<close>, from loop \<open>m\<close> on, when the loops so far
  are the freshly created loops \<open>0..m-1\<close>: it creates the loops up to \<open>n\<close>, all Off, with
  dark LEDs, and sends the two requests for each new loop, in order.
\<close>

lemma rebuildLoops_result:
  assumes "length (leds s) = 10" "loops s = offLoops m" "m \<le> n" "n \<le> 10"
  shows "\<exists>s'. rebuildLoops (int m) (int n) s = Inr s' \<and> loopsStep s s' \<and>
           loops s' = offLoops n \<and>
           (m < n \<longrightarrow> (\<forall>j<n. isDark (leds s' ! j))) \<and>
           filter isOscSent (drop (length (events s)) (events s')) =
             concat (map (\<lambda>j. [registerRequest s j, getRequest s j]) [m..<n])"
  using assms
proof (induction "n - m" arbitrary: m s)
  case 0
  then have "m = n" by simp
  then show ?case
    using "0.prems"(2) by (subst rebuildLoops.simps) (simp add: loopsStep_refl)
next
  case (Suc d)
  have lt: "m < n" "int m < int n" using Suc.hyps(2) by simp_all
  have m10: "m < 10" using lt Suc.prems(4) by simp
  let ?sa = "s\<lparr>loops := loops s @ [\<lparr>loop_index = int m, loop_state = Off, loop_led = nat (int m)\<rparr>]\<rparr>"
  have add: "addLoop (int m) s = Inr ?sa"
    using m10 Suc.prems(1) by (simp add: addLoop_def)
  let ?sb = "getCurrentState (int m) (registerAutoUpdates (int m) False ?sa)"
  have sb: "?sb = s\<lparr>loops := offLoops (Suc m),
                     events := events s @ [registerRequest s m, getRequest s m]\<rparr>"
    unfolding request_events
    by (simp add: offLoops_Suc Suc.prems(2) registerRequest_def getRequest_def replyUrl_def)
  have step_b: "loopsStep s ?sb"
    unfolding sb
    using loopsStepI [where L = "leds s" and s = s and lo = "offLoops (Suc m)"
        and evs = "[registerRequest s m, getRequest s m]"]
    by simp
  have fb: "length (leds ?sb) = 10" "loops ?sb = offLoops (Suc m)"
    unfolding sb using Suc.prems(1) by simp_all
  obtain sc where sc: "updateLoops ?sb = Inr sc" "onlyLeds ?sb sc"
    "\<forall>j<Suc m. isDark (leds sc ! j)"
    using updateLoops_off [OF fb] m10 by auto
  have fc: "length (leds sc) = 10" "loops sc = offLoops (Suc m)"
    using onlyLeds_fields(1,3) [OF sc(2)] fb by simp_all
  have d: "d = n - Suc m" using Suc.hyps(2) by simp
  obtain s' where s': "rebuildLoops (int (Suc m)) (int n) sc = Inr s'" "loopsStep sc s'"
    "loops s' = offLoops n"
    "Suc m < n \<longrightarrow> (\<forall>j<n. isDark (leds s' ! j))"
    "filter isOscSent (drop (length (events sc)) (events s')) =
       concat (map (\<lambda>j. [registerRequest sc j, getRequest sc j]) [Suc m..<n])"
    using Suc.hyps(1) [OF d fc] lt(1) Suc.prems(4) by auto
  have run: "rebuildLoops (int m) (int n) s = Inr s'"
    using lt(2) add sc(1) s'(1) by (subst rebuildLoops.simps) (simp add: add.commute)
  have step_c: "loopsStep s sc"
    using step_b onlyLeds_loopsStep [OF sc(2)] by (rule loopsStep_trans)
  have step: "loopsStep s s'"
    using step_c s'(2) by (rule loopsStep_trans)
  have url: "replyUrl sc = replyUrl s"
    using loopsStep_fields(11) [OF step_c] .
  have dark: "\<forall>j<n. isDark (leds s' ! j)"
  proof (cases "Suc m < n")
    case True
    then show ?thesis using s'(4) by simp
  next
    case False
    then have n: "n = Suc m" using lt(1) by simp
    have "rebuildLoops (int (Suc m)) (int n) sc = Inr sc"
      unfolding n by (subst rebuildLoops.simps) simp
    then have "s' = sc" using s'(1) by simp
    then show ?thesis using sc(3) n by simp
  qed
  define e2 where "e2 = drop (length (events ?sb)) (events sc)"
  define e3 where "e3 = drop (length (events sc)) (events s')"
  have ev_b: "events ?sb = events s @ [registerRequest s m, getRequest s m]"
    unfolding sb by simp
  have ev_c: "events sc = events ?sb @ e2" "list_all isLedEvent e2"
    using onlyLeds_events [OF sc(2)] by (simp_all add: e2_def)
  have ev_s': "events s' = events sc @ e3"
    using loopsStep_fields(12) [OF s'(2)] by (simp add: e3_def)
  have new: "drop (length (events s)) (events s') =
             [registerRequest s m, getRequest s m] @ e2 @ e3"
    unfolding ev_s' ev_c(1) ev_b by simp
  have f3: "filter isOscSent e3 =
            concat (map (\<lambda>j. [registerRequest s j, getRequest s j]) [Suc m..<n])"
    using s'(5) request_eq [OF url] by (simp add: e3_def)
  have osc: "filter isOscSent (drop (length (events s)) (events s')) =
             concat (map (\<lambda>j. [registerRequest s j, getRequest s j]) [m..<n])"
    unfolding new
    using isLedEvent_not_osc [OF ev_c(2)] f3 lt(1)
    by (simp add: upt_conv_Cons registerRequest_def getRequest_def)
  show ?case
    using run step s'(3) dark osc by simp
qed

text \<open>
  The loop of the branch for the known engine id: it appends loops and leaves the loops
  that exist where and as they are.
\<close>

lemma extendLoops_result:
  assumes "length (leds s) = 10" "list_all loopOk (loops s)" "0 \<le> i" "n \<le> 10"
  shows "\<exists>s'. extendLoops i n s = Inr s' \<and> loopsStep s s' \<and> list_all loopOk (loops s') \<and>
           take (length (loops s)) (loops s') = loops s"
  using assms
proof (induction "nat (n - i)" arbitrary: i s)
  case 0
  then have "\<not> i < n" by simp
  then show ?case
    using "0.prems"(2) by (subst extendLoops.simps) (simp add: loopsStep_refl)
next
  case (Suc d)
  have lt: "i < n" using Suc.hyps(2) by simp
  have i10: "0 \<le> i" "i < 10" using lt Suc.prems(3,4) by simp_all
  let ?s0 = "registerAutoUpdates i False s"
  let ?new = "\<lparr>loop_index = i, loop_state = Off, loop_led = nat i\<rparr>"
  let ?sa = "?s0\<lparr>loops := loops ?s0 @ [?new]\<rparr>"
  have add: "addLoop i ?s0 = Inr ?sa"
    using i10 Suc.prems(1) by (simp add: addLoop_def)
  have sa: "?sa = s\<lparr>leds := leds s, loops := loops s @ [?new],
                    events := events s @ [OscSent (''/sl'' @ ''/'' @ to_string i @
                        ''/register_auto_update'')
                      [OString ''state'', OInt32 100, OString (replyUrl s), OString ''/ctrl'']]\<rparr>"
    by (simp add: registerAutoUpdates_def emit_def)
  have step_a: "loopsStep s ?sa"
    unfolding sa by (rule loopsStepI) simp
  have fa: "length (leds ?sa) = 10" "list_all loopOk (loops ?sa)"
    "loops ?sa = loops s @ [?new]"
    using Suc.prems(1,2) i10 by (simp_all add: loopOk_def)
  obtain sc where sc: "updateLoops ?sa = Inr sc" "onlyLeds ?sa sc"
    using updateLoops_refresh [OF fa(1,2)] by blast
  have fc: "length (leds sc) = 10" "loops sc = loops s @ [?new]"
    using onlyLeds_fields(1,3) [OF sc(2)] fa by simp_all
  have okc: "list_all loopOk (loops sc)"
    using fa(2) onlyLeds_fields(1) [OF sc(2)] by simp
  have d: "d = nat (n - (i + 1))" using Suc.hyps(2) by simp
  obtain s' where s': "extendLoops (i + 1) n sc = Inr s'" "loopsStep sc s'"
    "list_all loopOk (loops s')" "take (length (loops sc)) (loops s') = loops sc"
    using Suc.hyps(1) [OF d fc(1) okc] i10(1) Suc.prems(4) by auto
  have run: "extendLoops i n s = Inr s'"
    using lt add sc(1) s'(1) by (subst extendLoops.simps) simp
  have step: "loopsStep s s'"
    using loopsStep_trans [OF step_a onlyLeds_loopsStep [OF sc(2)]] s'(2)
    by (rule loopsStep_trans)
  have "take (length (loops s)) (take (length (loops sc)) (loops s')) =
        take (length (loops s)) (loops sc)"
    using s'(4) by simp
  then have pre: "take (length (loops s)) (loops s') = loops s"
    by (simp add: fc(2) min_def)
  show ?case
    using run step s'(3) pre by simp
qed

lemma heartbeatArgs_wellformed:
  "heartbeatArgs 0 [OString h, OString v, OInt32 n, OInt32 uid] (0, e, s) =
   (n, uid, s\<lparr>hostUrl := h, version := v\<rparr>)"
  by (simp add: numeral_3_eq_3)

lemma heartbeat_rebuild:
  assumes len: "length (leds s) = 10" and uid: "uid \<noteq> engineId s"
    and n: "0 < n" "n \<le> 10"
  shows "\<exists>s'. handleHeartbeatMessage [OString h, OString v, OInt32 n, OInt32 uid] s = Inr s' \<and>
           loops s' = offLoops (nat n) \<and> (\<forall>j<nat n. isDark (leds s' ! j)) \<and>
           filter isOscSent (drop (length (events s)) (events s')) =
             concat (map (\<lambda>j. [registerRequest s j, getRequest s j]) [0..<nat n]) @
             [OscSent ''/register_update''
                [OString ''selected_loop_num'', OString (replyUrl s), OString ''/ctrl'']] \<and>
           loopCount s' = n \<and> heartbeat s' = 5"
proof -
  let ?s1 = "s\<lparr>hostUrl := h, version := v\<rparr>"
  let ?sx = "?s1\<lparr>loopCount := n, loops := []\<rparr>"
  have fx: "length (leds ?sx) = 10" "loops ?sx = offLoops 0"
    using len by (simp_all add: offLoops_def)
  have nn: "0 \<le> nat n" "nat n \<le> 10" "0 < nat n" "int (nat n) = n"
    using n by simp_all
  obtain s2 where s2: "rebuildLoops (int 0) (int (nat n)) ?sx = Inr s2" "loopsStep ?sx s2"
    "loops s2 = offLoops (nat n)" "\<forall>j<nat n. isDark (leds s2 ! j)"
    "filter isOscSent (drop (length (events ?sx)) (events s2)) =
       concat (map (\<lambda>j. [registerRequest ?sx j, getRequest ?sx j]) [0..<nat n])"
    using rebuildLoops_result [OF fx nn(1,2)] nn(3) by auto
  have run2: "rebuildLoops 0 n ?sx = Inr s2"
    using s2(1) nn(4) by simp
  let ?s' = "(registerGlobalUpdates False s2)\<lparr>heartbeat := 5\<rparr>"
  have run: "handleHeartbeatMessage [OString h, OString v, OInt32 n, OInt32 uid] s = Inr ?s'"
    unfolding handleHeartbeatMessage_def heartbeatArgs_wellformed
    using uid n(1) run2 by simp
  have urlx: "replyUrl ?sx = replyUrl s"
    by (simp add: replyUrl_def)
  have url2: "replyUrl s2 = replyUrl s"
    using loopsStep_fields(11) [OF s2(2)] urlx by simp
  define e where "e = drop (length (events ?sx)) (events s2)"
  have ev2: "events s2 = events s @ e"
    using loopsStep_fields(12) [OF s2(2)] by (simp add: e_def)
  have ev': "events ?s' = events s @ e @
      [OscSent ''/register_update''
         [OString ''selected_loop_num'', OString (replyUrl s), OString ''/ctrl'']]"
    by (simp add: registerGlobalUpdates_def emit_def ev2 url2)
  have fe: "filter isOscSent e =
      concat (map (\<lambda>j. [registerRequest s j, getRequest s j]) [0..<nat n])"
    using s2(5) request_eq [OF urlx] by (simp add: e_def)
  have osc: "filter isOscSent (drop (length (events s)) (events ?s')) =
      concat (map (\<lambda>j. [registerRequest s j, getRequest s j]) [0..<nat n]) @
      [OscSent ''/register_update''
         [OString ''selected_loop_num'', OString (replyUrl s), OString ''/ctrl'']]"
    unfolding ev' using fe by simp
  have lc: "loopCount ?s' = n"
    using loopsStep_fields(5) [OF s2(2)] by simp
  have lo: "loops ?s' = offLoops (nat n)" "\<forall>j<nat n. isDark (leds ?s' ! j)"
    using s2(3,4) by simp_all
  show ?thesis
    using run lo osc lc by simp
qed

lemma heartbeat_no_loops:
  assumes "uid \<noteq> engineId s" "n \<le> 0"
  shows "handleHeartbeatMessage [OString h, OString v, OInt32 n, OInt32 uid] s =
         Inr (s\<lparr>hostUrl := h, version := v, heartbeat := 5\<rparr>)"
  unfolding handleHeartbeatMessage_def heartbeatArgs_wellformed
  using assms by simp

lemma heartbeat_same_engine:
  assumes "length (leds s) = 10" "uid = engineId s" "list_all loopOk (loops s)"
    "0 \<le> loopCount s" "n \<le> 10"
  shows "\<exists>s'. handleHeartbeatMessage [OString h, OString v, OInt32 n, OInt32 uid] s = Inr s' \<and>
           take (length (loops s)) (loops s') = loops s \<and> heartbeat s' = 5"
proof -
  let ?s1 = "s\<lparr>hostUrl := h, version := v\<rparr>"
  have f1: "length (leds ?s1) = 10" "list_all loopOk (loops ?s1)" "0 \<le> loopCount ?s1"
    using assms by simp_all
  obtain s2 where s2: "extendLoops (loopCount ?s1) n ?s1 = Inr s2"
    "take (length (loops ?s1)) (loops s2) = loops ?s1"
    using extendLoops_result [OF f1 assms(5)] by blast
  show ?thesis
    unfolding handleHeartbeatMessage_def heartbeatArgs_wellformed
    using assms(2) s2 by simp
qed

lemma ledsKept_from:
  assumes "length (leds s0) = length (leds s)" "loopCount s0 = loopCount s" "ledsKept r s0"
  shows "ledsKept r s"
  using assms by (cases r) simp_all

lemma pingAckLoops_kept: "ledsKept (pingAckLoops i n s) s"
proof (induction i n s rule: pingAckLoops.induct)
  case (1 i n s)
  show ?case
  proof (cases "i < n")
    case False
    then show ?thesis by (subst pingAckLoops.simps) simp
  next
    case True
    from addLoop_cases [of i s] show ?thesis
    proof
      assume ok: "0 \<le> i \<and> i < int (length (leds s)) \<and>
        addLoop i s =
          Inr (s\<lparr>loops := loops s @ [\<lparr>loop_index = i, loop_state = Off, loop_led = nat i\<rparr>]\<rparr>)"
      let ?s1 = "s\<lparr>loops := loops s @ [\<lparr>loop_index = i, loop_state = Off, loop_led = nat i\<rparr>]\<rparr>"
      let ?s2 = "getCurrentState i (registerAutoUpdates i False ?s1)"
      have "ledsKept (pingAckLoops (i + 1) n ?s2) ?s2"
        using True ok by (intro "1.IH") simp_all
      then have "ledsKept (pingAckLoops (i + 1) n ?s2) s"
        by (rule ledsKept_from [rotated 2]) simp_all
      then show ?thesis
        using True ok by (subst pingAckLoops.simps) simp
    next
      assume "(i < 0 \<or> int (length (leds s)) \<le> i) \<and> addLoop i s = Inl LedIndexOutOfRange"
      then show ?thesis
        using True by (subst pingAckLoops.simps) simp
    qed
  qed
qed

lemma rebuildLoops_kept: "ledsKept (rebuildLoops i n s) s"
proof (induction i n s rule: rebuildLoops.induct)
  case (1 i n s)
  show ?case
  proof (cases "i < n")
    case False
    then show ?thesis by (subst rebuildLoops.simps) simp
  next
    case True
    from addLoop_cases [of i s] show ?thesis
    proof
      assume ok: "0 \<le> i \<and> i < int (length (leds s)) \<and>
        addLoop i s =
          Inr (s\<lparr>loops := loops s @ [\<lparr>loop_index = i, loop_state = Off, loop_led = nat i\<rparr>]\<rparr>)"
      let ?s1 = "s\<lparr>loops := loops s @ [\<lparr>loop_index = i, loop_state = Off, loop_led = nat i\<rparr>]\<rparr>"
      let ?s2 = "getCurrentState i (registerAutoUpdates i False ?s1)"
      show ?thesis
      proof (cases "updateLoops ?s2")
        case (Inl e)
        then have "e = LedIndexOutOfRange"
          using updateLoops_kept [of ?s2] by simp
        then show ?thesis
          using True ok Inl by (subst rebuildLoops.simps) simp
      next
        case (Inr s3)
        then have k3: "length (leds s3) = length (leds s)" "loopCount s3 = loopCount s"
          using updateLoops_kept [of ?s2] by simp_all
        have "ledsKept (rebuildLoops (i + 1) n s3) s3"
          using True ok Inr by (intro "1.IH") simp_all
        then have "ledsKept (rebuildLoops (i + 1) n s3) s"
          using k3 by (intro ledsKept_from [of s3 s]) simp_all
        then show ?thesis
          using True ok Inr by (subst rebuildLoops.simps) simp
      qed
    next
      assume "(i < 0 \<or> int (length (leds s)) \<le> i) \<and> addLoop i s = Inl LedIndexOutOfRange"
      then show ?thesis
        using True by (subst rebuildLoops.simps) simp
    qed
  qed
qed

lemma extendLoops_kept: "ledsKept (extendLoops i n s) s"
proof (induction i n s rule: extendLoops.induct)
  case (1 i n s)
  show ?case
  proof (cases "i < n")
    case False
    then show ?thesis by (subst extendLoops.simps) simp
  next
    case True
    let ?s0 = "registerAutoUpdates i False s"
    from addLoop_cases [of i ?s0] show ?thesis
    proof
      assume ok: "0 \<le> i \<and> i < int (length (leds ?s0)) \<and>
        addLoop i ?s0 =
          Inr (?s0\<lparr>loops := loops ?s0 @ [\<lparr>loop_index = i, loop_state = Off, loop_led = nat i\<rparr>]\<rparr>)"
      let ?s1 = "?s0\<lparr>loops := loops ?s0 @ [\<lparr>loop_index = i, loop_state = Off, loop_led = nat i\<rparr>]\<rparr>"
      show ?thesis
      proof (cases "updateLoops ?s1")
        case (Inl e)
        then have "e = LedIndexOutOfRange"
          using updateLoops_kept [of ?s1] by simp
        then show ?thesis
          using True ok Inl by (subst extendLoops.simps) simp
      next
        case (Inr s3)
        then have k3: "length (leds s3) = length (leds s)" "loopCount s3 = loopCount s"
          using updateLoops_kept [of ?s1] by simp_all
        have "ledsKept (extendLoops (i + 1) n s3) s3"
          using True ok Inr by (intro "1.IH") simp_all
        then have "ledsKept (extendLoops (i + 1) n s3) s"
          using k3 by (intro ledsKept_from [of s3 s]) simp_all
        then show ?thesis
          using True ok Inr by (subst extendLoops.simps) simp
      qed
    next
      assume "(i < 0 \<or> int (length (leds ?s0)) \<le> i) \<and> addLoop i ?s0 = Inl LedIndexOutOfRange"
      then show ?thesis
        using True by (subst extendLoops.simps) simp
    qed
  qed
qed

section \<open>The LED pool and the stored loop count\<close>

text \<open>
  In every state that the constructor, the tick and the handlers produce without an
  out-of-range access, the pool has 10 LEDs and the stored loop count is at most 10.
\<close>

lemma poolInv_initial: "poolInv initial"
  by (simp add: poolInv_def initial_def initialLeds_def)

lemma poolInv_pingAck:
  assumes "poolInv s" "handlePingAckMessage m s = Inr s'"
  shows "poolInv s'"
proof (cases "m = []")
  case True
  then show ?thesis using assms by (simp add: handlePingAckMessage_def)
next
  case False
  let ?s1 = "pingAckArgs 0 m s"
  have l1: "length (leds ?s1) = 10"
    using assms(1) by (simp add: poolInv_def pingAckArgs_keeps(1))
  show ?thesis
  proof (cases "loopCount ?s1 > 0")
    case pos: True
    let ?sx = "?s1\<lparr>loops := []\<rparr>"
    obtain s2 where s2: "pingAckLoops 0 (loopCount ?s1) ?sx = Inr s2"
      "s' = (registerGlobalUpdates False s2)\<lparr>heartbeat := 5\<rparr>"
      using assms(2) False pos
      by (cases "pingAckLoops 0 (loopCount ?s1) ?sx")
        (simp_all add: handlePingAckMessage_def Let_def del: pingAckArgs.simps)
    have le: "loopCount ?s1 \<le> 10"
    proof (rule ccontr)
      assume "\<not> loopCount ?s1 \<le> 10"
      then have "pingAckLoops 0 (loopCount ?s1) ?sx = Inl LedIndexOutOfRange"
        using l1 by (intro pingAckLoops_overflow) simp_all
      then show False using s2(1) by simp
    qed
    have "length (leds s2) = 10" "loopCount s2 = loopCount ?s1"
      using pingAckLoops_kept [of 0 "loopCount ?s1" ?sx] s2(1) l1 by simp_all
    then show ?thesis
      using le s2(2) by (simp add: poolInv_def)
  next
    case neg: False
    then have "s' = ?s1\<lparr>heartbeat := 5\<rparr>"
      using assms(2) False
      by (simp add: handlePingAckMessage_def Let_def del: pingAckArgs.simps)
    then show ?thesis
      using neg l1 by (simp add: poolInv_def)
  qed
qed

lemma poolInv_heartbeat:
  assumes "poolInv s" "handleHeartbeatMessage m s = Inr s'"
  shows "poolInv s'"
proof (cases "m = []")
  case True
  then show ?thesis using assms by (simp add: handleHeartbeatMessage_def)
next
  case False
  obtain numloops uid s1 where h: "heartbeatArgs 0 m (0, engineId s, s) = (numloops, uid, s1)"
    by (cases "heartbeatArgs 0 m (0, engineId s, s)") auto
  have k1: "length (leds s1) = 10" "loopCount s1 \<le> 10"
    using heartbeatArgs_keeps(1,3) [of 0 m 0 "engineId s" s] h assms(1)
    by (simp_all add: poolInv_def)
  show ?thesis
  proof (cases "uid \<noteq> engineId s1")
    case changed: True
    show ?thesis
    proof (cases "numloops > 0")
      case pos: True
      let ?sx = "s1\<lparr>loopCount := numloops, loops := []\<rparr>"
      obtain s2 where s2: "rebuildLoops 0 numloops ?sx = Inr s2"
        "s' = (registerGlobalUpdates False s2)\<lparr>heartbeat := 5\<rparr>"
        using assms(2) False changed pos h
        by (cases "rebuildLoops 0 numloops ?sx") (simp_all add: handleHeartbeatMessage_def)
      have le: "numloops \<le> 10"
      proof (rule ccontr)
        assume "\<not> numloops \<le> 10"
        then have "rebuildLoops 0 numloops ?sx = Inl LedIndexOutOfRange"
          using k1 by (intro rebuildLoops_overflow) simp_all
        then show False using s2(1) by simp
      qed
      have "length (leds s2) = 10" "loopCount s2 = numloops"
        using rebuildLoops_kept [of 0 numloops ?sx] s2(1) k1 by simp_all
      then show ?thesis
        using le s2(2) by (simp add: poolInv_def)
    next
      case neg: False
      then have "s' = s1\<lparr>heartbeat := 5\<rparr>"
        using assms(2) False changed h by (simp add: handleHeartbeatMessage_def)
      then show ?thesis using k1 by (simp add: poolInv_def)
    qed
  next
    case same: False
    show ?thesis
    proof (cases "loopCount s1 \<noteq> numloops")
      case differ: True
      obtain s2 where s2: "extendLoops (loopCount s1) numloops s1 = Inr s2"
        "s' = s2\<lparr>loopCount := numloops, heartbeat := 5\<rparr>"
        using assms(2) False same differ h
        by (cases "extendLoops (loopCount s1) numloops s1")
          (simp_all add: handleHeartbeatMessage_def)
      have le: "numloops \<le> 10"
      proof (rule ccontr)
        assume "\<not> numloops \<le> 10"
        then have "extendLoops (loopCount s1) numloops s1 = Inl LedIndexOutOfRange"
          using k1 by (intro extendLoops_overflow) simp_all
        then show False using s2(1) by simp
      qed
      have "length (leds s2) = 10"
        using extendLoops_kept [of "loopCount s1" numloops s1] s2(1) k1 by simp
      then show ?thesis
        using le s2(2) by (simp add: poolInv_def)
    next
      case equal: False
      then have "s' = s1\<lparr>heartbeat := 5\<rparr>"
        using assms(2) False same h by (simp add: handleHeartbeatMessage_def)
      then show ?thesis using k1 by (simp add: poolInv_def)
    qed
  qed
qed

lemma ledsKept_poolInv:
  assumes "poolInv s" "ledsKept r s" "r = Inr s'"
  shows "poolInv s'"
  using assms by (simp add: poolInv_def)

lemma selectLoop_keeps [simp]:
  "leds (selectLoop s) = leds s" "loopCount (selectLoop s) = loopCount s"
  by (simp_all add: selectLoop_def Let_def emit_def)

lemma poolInv_ctrl:
  assumes "poolInv s" "handleCtrlMessage m s = Inr s'"
  shows "poolInv s'"
proof -
  have upd: "poolInv s2" if "updateLoopLedState k st s = Inr s2" for k st s2
    using ledsKept_poolInv [OF assms(1) updateLoopLedState_kept that] .
  show ?thesis
    using assms upd
    by (auto simp add: handleCtrlMessage_def poolInv_def emit_def andThen_def
        split: list.splits OSCArgument.splits if_splits sum.splits)
qed

lemma poolInv_timer: "poolInv s \<Longrightarrow> poolInv (timerCallback a b s)"
  by (simp add: poolInv_def timerCallback_def tryToConnectOsc_def connect_def emit_def Let_def)

lemma applyFilterCommands_keeps [simp]:
  "leds (applyFilterCommands cs s) = leds s" "loopCount (applyFilterCommands cs s) = loopCount s"
  by (induction cs arbitrary: s) simp_all

lemma sendMidiMessage_keeps [simp]:
  "leds (sendMidiMessage msg s) = leds s" "loopCount (sendMidiMessage msg s) = loopCount s"
  by (simp_all add: sendMidiMessage_def emit_def)

lemma handleIncomingMidiMessage_kept: "ledsKept (handleIncomingMidiMessage msg s) s"
proof -
  have toggle: "ledsKept (andThen (setLed cc p v (s\<lparr>mode := m\<rparr>)) updateLoops) s" for cc p v m
    by (rule ledsKept_andThen [OF setLed_kept']) (simp_all add: updateLoops_kept)
  have undo_down: "ledsKept (andThen (setLed cc p v s)
      (\<lambda>s1. Inr (sendMidiMessage (f s1) s1))) s" for cc p v f
    by (rule ledsKept_andThen [OF setLed_kept]) simp
  have undo_up: "ledsKept (andThen (setLed cc p v s)
      (\<lambda>s1. updateLoops (sendMidiMessage (f s1) s1))) s" for cc p v f
  proof (rule ledsKept_andThen [OF setLed_kept])
    fix s1
    show "ledsKept (updateLoops (sendMidiMessage (f s1) s1)) s1"
      by (rule ledsKept_from [OF _ _ updateLoops_kept]) simp_all
  qed
  show ?thesis
    using toggle undo_down undo_up
    by (cases msg) (simp_all add: handleIncomingMidiMessage_def Let_def ledOn_eq ledOff_eq emit_def)
qed

lemma poolInv_midi:
  assumes "poolInv s" "handleIncomingMidiMessage msg s = Inr s'"
  shows "poolInv s'"
  using ledsKept_poolInv [OF assms(1) handleIncomingMidiMessage_kept assms(2)] .

section \<open>The heartbeat countdown\<close>

lemma tick_countdown:
  assumes "0 \<le> currentReceivePort s" "0 \<le> currentSendPort s" "0 < heartbeat s"
  shows "timerCallback a b s = s\<lparr>heartbeat := heartbeat s - 1\<rparr>"
  using assms by (simp add: timerCallback_def)

lemma tick_at_zero:
  assumes "0 \<le> currentReceivePort s" "0 \<le> currentSendPort s" "heartbeat s = 0"
  shows "timerCallback a b s =
         emit (OscSent ''/ping'' [OString (replyUrl s), OString ''/heartbeat'']) s"
  using assms by (simp add: timerCallback_def)

lemma ticks_countdown:
  assumes "0 \<le> currentReceivePort s" "0 \<le> currentSendPort s" "int n \<le> heartbeat s"
  shows "ticks n a b s = s\<lparr>heartbeat := heartbeat s - int n\<rparr>"
  using assms
proof (induction n arbitrary: s)
  case 0
  then show ?case by simp
next
  case (Suc n)
  have pos: "0 < heartbeat s" using Suc.prems(3) by simp
  let ?s1 = "s\<lparr>heartbeat := heartbeat s - 1\<rparr>"
  have step: "timerCallback a b s = ?s1"
    using Suc.prems(1,2) pos by (rule tick_countdown)
  have "ticks n a b ?s1 = ?s1\<lparr>heartbeat := heartbeat ?s1 - int n\<rparr>"
    using Suc.prems by (intro Suc.IH) simp_all
  then show ?case by (simp add: step)
qed

lemma ticks_at_zero:
  assumes "0 \<le> currentReceivePort s" "0 \<le> currentSendPort s" "heartbeat s = 0"
  shows "ticks n a b s =
         s\<lparr>events := events s @
             replicate n (OscSent ''/ping'' [OString (replyUrl s), OString ''/heartbeat''])\<rparr>"
  using assms
proof (induction n arbitrary: s)
  case 0
  then show ?case by simp
next
  case (Suc n)
  let ?p = "OscSent ''/ping'' [OString (replyUrl s), OString ''/heartbeat'']"
  have step: "timerCallback a b s = emit ?p s"
    using Suc.prems by (rule tick_at_zero)
  have "ticks n a b (emit ?p s) =
        (emit ?p s)\<lparr>events := events (emit ?p s) @
           replicate n (OscSent ''/ping''
             [OString (replyUrl (emit ?p s)), OString ''/heartbeat''])\<rparr>"
    using Suc.prems by (intro Suc.IH) (simp_all add: emit_def)
  then show ?case
    by (simp add: step emit_def replyUrl_def replicate_app_Cons_same)
qed

lemma ticks_add: "ticks (m + n) a b s = ticks n a b (ticks m a b s)"
  by (induction m arbitrary: s) simp_all

text \<open>
  From a countdown of 5 in an established session, five ticks bring the countdown to 0;
  there it stays, and every later tick sends a ping and does nothing else.
\<close>

lemma ticks_after_five:
  assumes "0 \<le> currentReceivePort s" "0 \<le> currentSendPort s" "heartbeat s = 5"
  shows "ticks (5 + n) a b s =
         s\<lparr>heartbeat := 0,
           events := events s @
             replicate n (OscSent ''/ping'' [OString (replyUrl s), OString ''/heartbeat''])\<rparr>"
proof -
  have five: "ticks 5 a b s = s\<lparr>heartbeat := 0\<rparr>"
    using ticks_countdown [of s 5 a b] assms by simp
  show ?thesis
    unfolding ticks_add five
    using assms by (subst ticks_at_zero) (simp_all add: replyUrl_def)
qed

text \<open>
  Claim C3 (the countdown is decremented once per tick, a ping goes out on the 6th tick,
  and after 11 ticks without a message the session is reset): evaluated on the code.
  In the established session with countdown 5, five ticks bring the countdown to 0 and
  the 6th tick sends the ping. The branch taken at 0 does not decrement, so the countdown
  is 0 after any number of further ticks: after 11 and after 12 ticks the two port
  markers are still set, and each tick from the 6th on has sent one more ping. Whether
  the sockets could be reopened plays no role (here they could not).
\<close>

theorem heartbeat_stuck_at_zero:
  "heartbeat established = 5 \<and> currentReceivePort established = 9000 \<and>
   currentSendPort established = 9951 \<and>
   ticks 5 False False established = established\<lparr>heartbeat := 0\<rparr> \<and>
   ticks 6 False False established =
     established\<lparr>heartbeat := 0, events := events established @ [heartbeatPing]\<rparr> \<and>
   (\<forall>n. ticks (5 + n) False False established =
     established\<lparr>heartbeat := 0,
       events := events established @ replicate n heartbeatPing\<rparr>) \<and>
   heartbeat (ticks 11 False False established) = 0 \<and>
   currentReceivePort (ticks 11 False False established) = 9000 \<and>
   currentSendPort (ticks 11 False False established) = 9951 \<and>
   heartbeat (ticks 12 False False established) = 0 \<and>
   currentReceivePort (ticks 12 False False established) = 9000 \<and>
   currentSendPort (ticks 12 False False established) = 9951"
proof -
  have e: "heartbeat established = 5" "currentReceivePort established = 9000"
    "currentSendPort established = 9951"
    by (simp_all add: established_eq)
  have url: "replyUrl established = ''osc.udp://localhost:9000/''"
    by (simp add: replyUrl_def e to_string_eval)
  have gen: "ticks (5 + n) False False established =
     established\<lparr>heartbeat := 0,
       events := events established @ replicate n heartbeatPing\<rparr>" for n
    using ticks_after_five [of established n False False] e
    by (simp add: url heartbeatPing_def)
  have t5: "ticks 5 False False established = established\<lparr>heartbeat := 0\<rparr>"
    using gen [of 0] by simp
  have t6: "ticks 6 False False established =
     established\<lparr>heartbeat := 0, events := events established @ [heartbeatPing]\<rparr>"
    using gen [of 1] by simp
  have t11: "ticks 11 False False established =
     established\<lparr>heartbeat := 0,
       events := events established @ replicate 6 heartbeatPing\<rparr>"
    using gen [of 6] by simp
  have t12: "ticks 12 False False established =
     established\<lparr>heartbeat := 0,
       events := events established @ replicate 7 heartbeatPing\<rparr>"
    using gen [of 7] by simp
  show ?thesis
    unfolding t11 t12 using e t5 t6 gen by simp
qed

section \<open>The LED state machine\<close>

text \<open>
  What \<^verbatim>\<open>updateLoopLedState\<close> leaves behind, for a loop bound to the LED of its own index
  in the pool of 10: the call does not fail; the loop's LED has the visual state and the
  timer of the table of section 4.2 for the new state and the mode; it is on exactly when
  the table says so and the cleanup has not switched it off again; the shared action LED
  of the new state is on; when the new state differs from the previous one, the shared
  action LED of the previous state is off; the loop's state is the new state.
\<close>

lemma loop_led_after_update:
  assumes len: "length (leds s) = 10" and k: "k < length (loops s)"
    and idx: "0 \<le> loop_index (loops s ! k)" "loop_index (loops s ! k) < 10"
    and ref: "loop_led (loops s ! k) = nat (loop_index (loops s ! k))"
  shows "\<exists>s'. updateLoopLedState k newState s = Inr s' \<and>
           led_state (leds s' ! loop_led (loops s ! k)) = fst (specLedTable newState (mode s)) \<and>
           led_timer (leds s' ! loop_led (loops s ! k)) =
             fst (snd (specLedTable newState (mode s))) \<and>
           led_on (leds s' ! loop_led (loops s ! k)) =
             (snd (snd (specLedTable newState (mode s))) \<and>
              \<not> ownLedCleared (loops s ! k) newState (mode s)) \<and>
           (case actionLed newState of None \<Rightarrow> True | Some a \<Rightarrow> led_on (leds s' ! nat a)) \<and>
           (newState = loop_state (loops s ! k) \<or>
            (case actionLed (loop_state (loops s ! k)) of None \<Rightarrow> True
             | Some a \<Rightarrow> led_on (leds s' ! nat a) = False)) \<and>
           loops s' = (loops s)[k := (loops s ! k)\<lparr>loop_state := newState\<rparr>]"
proof -
  let ?loop = "loops s ! k"
  let ?prev = "loop_state ?loop"
  define i where "i = nat (loop_index ?loop)"
  have i: "loop_index ?loop = int i" "i < 10" "loop_led ?loop = i"
    using idx ref by (simp_all add: i_def)
  obtain st t on where tab: "specLedTable newState (mode s) = (st, t, on)"
    by (cases "specLedTable newState (mode s)") auto
  from updateLoopLedState_result [OF len k i tab]
  obtain s1 s2 where r:
    "updateLoopLedState k newState s =
       Inr (s2\<lparr>loops := (loops s)[k := ?loop\<lparr>loop_state := newState\<rparr>]\<rparr>)"
    "onlyLeds s s1" "onlyLeds s1 s2"
    "leds s1 ! i = (leds s ! i)\<lparr>led_state := st, led_timer := t, led_on := on\<rparr>"
    "case actionLed newState of None \<Rightarrow> True | Some a \<Rightarrow> led_on (leds s1 ! nat a)"
    "leds s2 =
       (if newState \<noteq> ?prev
        then (case actionLed ?prev of None \<Rightarrow> leds s1
              | Some a \<Rightarrow> (leds s1)[nat a := (leds s1 ! nat a)\<lparr>led_on := False\<rparr>])
        else leds s1)"
    by blast
  have len1: "length (leds s1) = 10"
    using onlyLeds_fields(3) [OF r(2)] len by simp
  have own: "leds s2 ! i =
      (if newState \<noteq> ?prev \<and> actionLed ?prev = Some (int i)
       then (leds s1 ! i)\<lparr>led_on := False\<rparr> else leds s1 ! i)"
  proof (cases "newState \<noteq> ?prev \<and> actionLed ?prev = Some (int i)")
    case True
    then show ?thesis using len1 i(2) by (simp add: r(6))
  next
    case False
    then show ?thesis using actionLed_cases [of ?prev] by (auto simp add: r(6))
  qed
  have state: "led_state (leds s2 ! i) = st" "led_timer (leds s2 ! i) = t"
    unfolding own by (simp_all add: r(4))
  have onoff: "led_on (leds s2 ! i) = (on \<and> \<not> ownLedCleared ?loop newState (mode s))"
    unfolding own by (simp add: r(4) ownLedCleared_def tab i(1))
  have action: "case actionLed newState of None \<Rightarrow> True | Some a \<Rightarrow> led_on (leds s2 ! nat a)"
  proof (cases "actionLed newState")
    case None
    then show ?thesis by simp
  next
    case (Some a)
    have on1: "led_on (leds s1 ! nat a)" using r(5) Some by simp
    have "leds s2 ! nat a = leds s1 ! nat a" if "newState \<noteq> ?prev"
    proof (cases "actionLed ?prev")
      case None
      then show ?thesis using that by (simp add: r(6))
    next
      case b: (Some b)
      have "b \<noteq> a" using actionLed_inj [of newState a ?prev] Some b that by auto
      moreover have "0 \<le> a" "0 \<le> b"
        using actionLed_cases [of newState] actionLed_cases [of ?prev] Some b by auto
      ultimately show ?thesis using that b by (simp add: r(6))
    qed
    then have "leds s2 ! nat a = leds s1 ! nat a"
      by (cases "newState = ?prev") (simp_all add: r(6))
    then show ?thesis using on1 Some by simp
  qed
  have cleanup: "newState = ?prev \<or>
      (case actionLed ?prev of None \<Rightarrow> True | Some a \<Rightarrow> led_on (leds s2 ! nat a) = False)"
  proof (cases "newState = ?prev")
    case True
    then show ?thesis by simp
  next
    case False
    then have "leds s2 = (case actionLed ?prev of None \<Rightarrow> leds s1
        | Some a \<Rightarrow> (leds s1)[nat a := (leds s1 ! nat a)\<lparr>led_on := False\<rparr>])"
      by (simp add: r(6))
    then show ?thesis
      using actionLed_cases [of ?prev] len1 by auto
  qed
  show ?thesis
    unfolding r(1) i(3) tab using state onoff action cleanup
    by (auto split: option.splits)
qed

text \<open>
  Claim C1 (the loop's LED gets the visual state, the timer and on/off of the table of
  section 4.2, as a function of previous state, new state and mode): evaluated on the
  code. With seven loops, loop 6 is bound to LED 6, which is also the shared Insert LED.
  When loop 6 goes from Inserting to Recording, the table asks for Light, timer off, LED
  on. The branch of \<^verbatim>\<open>Recording\<close> sets Light and timer off and calls
  \<^verbatim>\<open>ledOn(loop.index_)\<close> (line \<^verbatim>\<open>cc 106 7\<close>); the cleanup that follows, commented
  \<^verbatim>\<open>turn off any leds that are no longer active\<close>, calls \<^verbatim>\<open>ledOff(INSERT)\<close> (line
  \<^verbatim>\<open>cc 107 7\<close>) on the same LED: the LED of a recording loop ends Light with timer off and
  switched off.
\<close>

theorem loop_led_cleared_by_cleanup:
  "case run [handlePingAckMessage (looperInfo 7 7), handleCtrlMessage (ctrlState 6 Inserting)]
          established of
     Inl e \<Rightarrow> False
   | Inr s \<Rightarrow>
       (case handleCtrlMessage (ctrlState 6 Recording) s of
          Inl e \<Rightarrow> False
        | Inr s' \<Rightarrow>
            loop_index (loops s ! 6) = 6 \<and> loop_led (loops s ! 6) = 6 \<and>
            loop_state (loops s ! 6) = Inserting \<and> loop_state (loops s' ! 6) = Recording \<and>
            specLedTable Recording (mode s) = (Light, TIMER_OFF, True) \<and>
            events s' = events s @ [Cc 106 (ledNumber 6), Cc 107 (ledNumber INSERT)] \<and>
            ledNumber 6 = 7 \<and> ledNumber INSERT = 7 \<and>
            led_state (leds s' ! 6) = Light \<and> led_timer (leds s' ! 6) = TIMER_OFF \<and>
            led_on (leds s' ! 6) = False)"
  by (simp add: handler_eval specLedTable_def upt_rec)

text \<open>
  Claim C2, as amended. For a loop bound to the LED of its own index in the pool of 10,
  and leaving out the calls in which the cleanup switches off the loop's own LED that
  the call has just switched on, \<^verbatim>\<open>updateLoopLedState\<close> first writes the loop's own LED
  (line \<^verbatim>\<open>cc 106\<close> or \<^verbatim>\<open>cc 107\<close> with the loop's display number), then turns on the
  shared action LED of the new state if it has one, and only then, when the new state
  differs from the previous one, turns off the shared action LED of the previous state;
  the lines on \<^verbatim>\<open>std::cout\<close> come in exactly this order. At the end the loop's own LED is
  on or off as the table of section 4.2 says, and the loop's stored state is the new
  state.
\<close>

theorem cleanup_follows_own_led:
  assumes len: "length (leds s) = 10" and k: "k < length (loops s)"
    and idx: "0 \<le> loop_index (loops s ! k)" "loop_index (loops s ! k) < 10"
    and ref: "loop_led (loops s ! k) = nat (loop_index (loops s ! k))"
    and own: "\<not> ownLedCleared (loops s ! k) newState (mode s)"
  shows "\<exists>s'. updateLoopLedState k newState s = Inr s' \<and>
           take (length (events s)) (events s') = events s \<and>
           filter isCc (drop (length (events s)) (events s')) =
             Cc (if snd (snd (specLedTable newState (mode s))) then 106 else 107)
                (ledNumber (loop_index (loops s ! k))) #
             (case actionLed newState of None \<Rightarrow> [] | Some a \<Rightarrow> [Cc 106 (ledNumber a)]) @
             (if newState \<noteq> loop_state (loops s ! k)
              then (case actionLed (loop_state (loops s ! k)) of None \<Rightarrow> []
                    | Some a \<Rightarrow> [Cc 107 (ledNumber a)])
              else []) \<and>
           led_on (leds s' ! loop_led (loops s ! k)) =
             snd (snd (specLedTable newState (mode s))) \<and>
           loop_state (loops s' ! k) = newState"
proof -
  let ?loop = "loops s ! k"
  let ?prev = "loop_state ?loop"
  define i where "i = nat (loop_index ?loop)"
  have i: "loop_index ?loop = int i" "i < 10" "loop_led ?loop = i"
    using idx ref by (simp_all add: i_def)
  obtain st t on where tab: "specLedTable newState (mode s) = (st, t, on)"
    by (cases "specLedTable newState (mode s)") auto
  from updateLoopLedState_result [OF len k i tab]
  obtain s1 s2 where r:
    "updateLoopLedState k newState s =
       Inr (s2\<lparr>loops := (loops s)[k := ?loop\<lparr>loop_state := newState\<rparr>]\<rparr>)"
    "onlyLeds s s1" "onlyLeds s1 s2"
    "filter isCc (drop (length (events s)) (events s1)) =
       Cc (if on then 106 else 107) (ledNumber (int i)) #
       (case actionLed newState of None \<Rightarrow> [] | Some a \<Rightarrow> [Cc 106 (ledNumber a)])"
    "filter isCc (drop (length (events s1)) (events s2)) =
       (if newState \<noteq> ?prev
        then (case actionLed ?prev of None \<Rightarrow> [] | Some a \<Rightarrow> [Cc 107 (ledNumber a)])
        else [])"
    "leds s1 ! i = (leds s ! i)\<lparr>led_state := st, led_timer := t, led_on := on\<rparr>"
    "leds s2 =
       (if newState \<noteq> ?prev
        then (case actionLed ?prev of None \<Rightarrow> leds s1
              | Some a \<Rightarrow> (leds s1)[nat a := (leds s1 ! nat a)\<lparr>led_on := False\<rparr>])
        else leds s1)"
    by blast
  define e1 where "e1 = drop (length (events s)) (events s1)"
  define e2 where "e2 = drop (length (events s1)) (events s2)"
  have ev1: "events s1 = events s @ e1"
    using onlyLeds_events(1) [OF r(2)] by (simp add: e1_def)
  have ev2: "events s2 = events s @ e1 @ e2"
    using onlyLeds_events(1) [OF r(3)] ev1 by (simp add: e2_def)
  have new: "drop (length (events s)) (events s2) = e1 @ e2"
    by (simp add: ev2)
  have cc: "filter isCc (drop (length (events s)) (events s2)) =
        filter isCc e1 @ filter isCc e2"
    by (simp add: new)
  have f1: "filter isCc e1 =
       Cc (if on then 106 else 107) (ledNumber (int i)) #
       (case actionLed newState of None \<Rightarrow> [] | Some a \<Rightarrow> [Cc 106 (ledNumber a)])"
    using r(4) by (simp add: e1_def)
  have f2: "filter isCc e2 =
       (if newState \<noteq> ?prev
        then (case actionLed ?prev of None \<Rightarrow> [] | Some a \<Rightarrow> [Cc 107 (ledNumber a)])
        else [])"
    using r(5) by (simp add: e2_def)
  have tk: "take (length (events s)) (events s2) = events s"
    by (simp add: ev2)
  have on: "snd (snd (specLedTable newState (mode s))) = on"
    by (simp add: tab)
  have len1: "length (leds s1) = 10"
    using onlyLeds_fields(3) [OF r(2)] len by simp
  have lit: "led_on (leds s2 ! i) = on"
  proof (cases "newState \<noteq> ?prev \<and> actionLed ?prev = Some (int i)")
    case True
    then have "\<not> on" using own by (simp add: ownLedCleared_def tab i(1))
    then show ?thesis using True len1 i(2) by (simp add: r(6) r(7))
  next
    case False
    then have "leds s2 ! i = leds s1 ! i"
      using actionLed_cases [of ?prev] by (auto simp add: r(7))
    then show ?thesis by (simp add: r(6))
  qed
  show ?thesis
    unfolding r(1) on i(1) i(3) using cc f1 f2 tk k lit by simp
qed

theorem cleanup_follows_own_led_witness:
  "length (leds (withLoops [Inserting])) = 10 \<and>
   0 < length (loops (withLoops [Inserting])) \<and>
   loop_index (loops (withLoops [Inserting]) ! 0) = 0 \<and>
   loop_led (loops (withLoops [Inserting]) ! 0) = 0 \<and>
   \<not> ownLedCleared (loops (withLoops [Inserting]) ! 0) Recording (mode (withLoops [Inserting])) \<and>
   led_on (leds (withLoops [Inserting]) ! 0) = False \<and>
   (\<exists>s'. updateLoopLedState 0 Recording (withLoops [Inserting]) = Inr s' \<and>
      take (length (events (withLoops [Inserting]))) (events s') =
        events (withLoops [Inserting]) \<and>
      filter isCc (drop (length (events (withLoops [Inserting]))) (events s')) =
        [Cc 106 (ledNumber 0), Cc 107 (ledNumber INSERT)] \<and>
      led_on (leds s' ! 0) = True \<and>
      loop_state (loops s' ! 0) = Recording)"
  using cleanup_follows_own_led [of "withLoops [Inserting]" 0 Recording]
  by (simp add: withLoops_def loopsOf_def established_eq initial_def initialLeds_def
      specLedTable_def actionLed_def ownLedCleared_def LoopStates_defs pedal_defs timer_defs)

text \<open>
  Claim C2 as stated asks for the shared action LED to be turned off before the loop's
  own LED is updated. On the code the order is the opposite: when loop 0 goes from
  Inserting to Off, the line for the loop's LED (display number 1) is printed first and
  the line for the shared Insert LED (display number 7) second.
\<close>

theorem cleanup_order_counterexample:
  "case run [handlePingAckMessage (looperInfo 1 7), handleCtrlMessage (ctrlState 0 Inserting)]
          established of
     Inl e \<Rightarrow> False
   | Inr s \<Rightarrow>
       (case handleCtrlMessage (ctrlState 0 Off) s of
          Inl e \<Rightarrow> False
        | Inr s' \<Rightarrow>
            loop_state (loops s ! 0) = Inserting \<and>
            events s' = events s @ [Cc 107 (ledNumber 0), Cc 107 (ledNumber INSERT)] \<and>
            ledNumber 0 = 1 \<and> ledNumber INSERT = 7)"
  by (simp add: handler_eval upt_rec)

section \<open>Properties of the pedal events\<close>

text \<open>
  Claim C4, as amended. With a virtual MIDI output and no filter command, for every
  controller value 1 to 4 (pedal index 0 to 3), the up event sends one note-off at
  \<open>baseNote + mode + index\<close> for the mode at the time of the up event; a down event
  directly followed by the up event of the same pedal sends exactly one note-on and then
  one note-off, both at \<open>baseNote + mode + index\<close>.
\<close>

theorem pedal_down_up_same_pitch:
  assumes "filterCommands s = []" "virtMidiOut s" "1 \<le> v" "v \<le> 4"
  shows "pedalIndex v = v - 1 \<and>
         handleIncomingMidiMessage (Controller ch 105 v) s =
           Inr (emit (MidiSent (NoteOff (channel s) (baseNote s + mode s + pedalIndex v) 0)) s) \<and>
         (\<exists>s1 s2. handleIncomingMidiMessage (Controller ch 104 v) s = Inr s1 \<and>
            handleIncomingMidiMessage (Controller ch 105 v) s1 = Inr s2 \<and>
            events s2 = events s @
              [MidiSent (NoteOn (channel s) (baseNote s + mode s + pedalIndex v) 127),
               MidiSent (NoteOff (channel s) (baseNote s + mode s + pedalIndex v) 0)])"
proof -
  have p: "pedalIndex v = v - 1" "0 \<le> pedalIndex v" "pedalIndex v \<le> 3"
    using assms(3,4) by (simp_all add: pedalIndex_def)
  have up: "handleIncomingMidiMessage (Controller ch 105 v) s' =
      Inr (emit (MidiSent (NoteOff (channel s') (baseNote s' + mode s' + pedalIndex v) 0)) s')"
    if "filterCommands s' = []" "virtMidiOut s'" for s'
    using that p(2,3) by (simp add: handleIncomingMidiMessage_def sendMidiMessage_def Let_def)
  let ?s1 = "emit (MidiSent (NoteOn (channel s) (baseNote s + mode s + pedalIndex v) 127)) s"
  have down: "handleIncomingMidiMessage (Controller ch 104 v) s = Inr ?s1"
    using assms(1,2) p(2,3)
    by (simp add: handleIncomingMidiMessage_def sendMidiMessage_def Let_def)
  have up1: "handleIncomingMidiMessage (Controller ch 105 v) ?s1 =
      Inr (emit (MidiSent (NoteOff (channel s) (baseNote s + mode s + pedalIndex v) 0)) ?s1)"
    using up [of ?s1] assms(1,2) by (simp add: emit_def)
  show ?thesis
    using p(1) up [OF assms(1,2)] down up1 by (simp add: emit_def)
qed

theorem pedal_down_up_same_pitch_witness:
  "filterCommands withMidiOut = [] \<and> virtMidiOut withMidiOut \<and> pedalIndex 1 = 0 \<and>
   (\<exists>s1 s2. handleIncomingMidiMessage (Controller 1 104 1) withMidiOut = Inr s1 \<and>
      handleIncomingMidiMessage (Controller 1 105 1) s1 = Inr s2 \<and>
      events s2 = events withMidiOut @
        [MidiSent (NoteOn 1 64 127), MidiSent (NoteOff 1 64 0)])"
proof -
  have h: "filterCommands withMidiOut = []" "virtMidiOut withMidiOut"
    by (simp_all add: withMidiOut_def established_eq initial_def)
  have c: "channel withMidiOut = 1" "baseNote withMidiOut = 64" "mode withMidiOut = 0"
    by (simp_all add: withMidiOut_def established_eq initial_def DEFAULT_BASE_NOTE_def)
  have p: "pedalIndex 1 = 0"
    by (simp add: pedalIndex_def)
  show ?thesis
    using pedal_down_up_same_pitch [of withMidiOut 1 1] h by (simp add: c p)
qed

text \<open>
  Claim C4 as stated also asks the up event to keep the pitch of the down event across a
  mode toggle. The handler keeps no record of the mode at down time: pedal 0 down in
  mode 0 sends note-on 64, a press of the Record pedal (controller value 5) switches the
  mode to 20, and pedal 0 up then sends note-off 84.
\<close>

theorem pedal_mode_toggle_counterexample:
  "case run [handleIncomingMidiMessage (Controller 1 104 1),
             handleIncomingMidiMessage (Controller 1 104 5),
             handleIncomingMidiMessage (Controller 1 105 1)] withMidiOut of
     Inl e \<Rightarrow> False
   | Inr s' \<Rightarrow>
       pedalIndex 1 = 0 \<and> pedalIndex 5 = RECORD \<and> mode withMidiOut = 0 \<and> mode s' = 20 \<and>
       filter isMidiSent (drop (length (events withMidiOut)) (events s')) =
         [MidiSent (NoteOn 1 64 127), MidiSent (NoteOff 1 84 0)]"
  by (simp add: handleIncomingMidiMessage_def sendMidiMessage_def pedalIndex_def
      withMidiOut_def handler_eval)

section \<open>Heartbeat messages and the loop collection\<close>

text \<open>
  Claim C5, as amended. Let the pool have its 10 LEDs and let a well-formed
  \<^verbatim>\<open>/heartbeat(hostUrl, version, loopCount, engineId)\<close> arrive. If its engine id differs
  from the stored \<^verbatim>\<open>engineId_\<close> and its loop count is between 1 and 10, the loop collection
  is discarded and rebuilt as loops \<open>0..loopCount-1\<close>, all Off, whatever the stored loop
  count was; for every loop, in order, a registration for auto updates and a query of its
  state are sent, followed by one \<^verbatim>\<open>/register_update\<close>; the LEDs of all loops are refreshed
  (dark, timer off, switched off); the countdown is 5. If the engine id differs and the
  loop count is 0 or negative, nothing is rebuilt: only host URL, version and countdown
  change. If the engine id equals the stored one (the loops being bound to LEDs of the
  pool, the stored loop count not negative, the reported one at most 10), the loops that
  exist keep their places, indices and states.
\<close>

theorem heartbeat_engine_change:
  assumes "length (leds s) = 10"
  shows "(uid \<noteq> engineId s \<and> 0 < n \<and> n \<le> 10 \<longrightarrow>
           (\<exists>s'. handleHeartbeatMessage [OString h, OString v, OInt32 n, OInt32 uid] s = Inr s' \<and>
              loops s' = offLoops (nat n) \<and> (\<forall>j<nat n. isDark (leds s' ! j)) \<and>
              filter isOscSent (drop (length (events s)) (events s')) =
                concat (map (\<lambda>j. [registerRequest s j, getRequest s j]) [0..<nat n]) @
                [OscSent ''/register_update''
                   [OString ''selected_loop_num'', OString (replyUrl s), OString ''/ctrl'']] \<and>
              loopCount s' = n \<and> heartbeat s' = 5)) \<and>
         (uid \<noteq> engineId s \<and> n \<le> 0 \<longrightarrow>
            handleHeartbeatMessage [OString h, OString v, OInt32 n, OInt32 uid] s =
              Inr (s\<lparr>hostUrl := h, version := v, heartbeat := 5\<rparr>)) \<and>
         (uid = engineId s \<and> list_all loopOk (loops s) \<and> 0 \<le> loopCount s \<and> n \<le> 10 \<longrightarrow>
            (\<exists>s'. handleHeartbeatMessage [OString h, OString v, OInt32 n, OInt32 uid] s = Inr s' \<and>
               take (length (loops s)) (loops s') = loops s \<and> heartbeat s' = 5))"
  using heartbeat_rebuild [OF assms, of uid n h v] heartbeat_no_loops [of uid s n h v]
    heartbeat_same_engine [OF assms, of uid n h v]
  by blast

theorem heartbeat_engine_change_witness:
  "length (leds (withLoops [Playing, Muted])) = 10 \<and>
   engineId (withLoops [Playing, Muted]) = 0 \<and>
   (\<exists>s'. handleHeartbeatMessage (looperInfo 2 7) (withLoops [Playing, Muted]) = Inr s' \<and>
      loops s' = offLoops 2 \<and> isDark (leds s' ! 0) \<and> isDark (leds s' ! 1) \<and>
      filter isOscSent (drop (length (events (withLoops [Playing, Muted]))) (events s')) =
        [registerRequest (withLoops [Playing, Muted]) 0, getRequest (withLoops [Playing, Muted]) 0,
         registerRequest (withLoops [Playing, Muted]) 1, getRequest (withLoops [Playing, Muted]) 1,
         OscSent ''/register_update''
           [OString ''selected_loop_num'', OString (replyUrl (withLoops [Playing, Muted])),
            OString ''/ctrl'']] \<and>
      loopCount s' = 2 \<and> heartbeat s' = 5) \<and>
   handleHeartbeatMessage (looperInfo 0 7) (withLoops [Playing, Muted]) =
     Inr ((withLoops [Playing, Muted])\<lparr>hostUrl := ''x'', version := ''1.0'', heartbeat := 5\<rparr>) \<and>
   list_all loopOk (loops (withLoops [Playing, Muted])) \<and>
   loopCount (withLoops [Playing, Muted]) = 2 \<and>
   (\<exists>s'. handleHeartbeatMessage (looperInfo 3 0) (withLoops [Playing, Muted]) = Inr s' \<and>
      take 2 (loops s') = loops (withLoops [Playing, Muted]) \<and> heartbeat s' = 5)"
proof -
  let ?w = "withLoops [Playing, Muted]"
  have h: "length (leds ?w) = 10" "engineId ?w = 0" "list_all loopOk (loops ?w)"
    "loopCount ?w = 2" "length (loops ?w) = 2"
    by (simp_all add: withLoops_def loopsOf_def loopOk_def established_eq initial_def
        initialLeds_def)
  have a: "\<forall>j<2. isDark (leds s' ! j) \<Longrightarrow> isDark (leds s' ! 0) \<and> isDark (leds s' ! 1)"
    for s' :: app
    by simp
  show ?thesis
    using heartbeat_engine_change [OF h(1), of 7 2 "''x''" "''1.0''"]
      heartbeat_engine_change [OF h(1), of 7 0 "''x''" "''1.0''"]
      heartbeat_engine_change [OF h(1), of 0 3 "''x''" "''1.0''"] h a
    by (auto simp add: looperInfo_def upt_rec)
qed

text \<open>
  Claim C5 as stated says that every heartbeat with a different engine id discards and
  rebuilds the collection. After \<^verbatim>\<open>/pingack("x","1.0",2,7)\<close> and a state update for loop
  0, the message \<^verbatim>\<open>/heartbeat("x","1.0",0,8)\<close> carries a different engine id; the two loops
  stay as they are, loop 0 still Playing, and nothing is sent to the looper.
\<close>

theorem heartbeat_engine_change_counterexample:
  "case run [handlePingAckMessage (looperInfo 2 7), handleCtrlMessage (ctrlState 0 Playing)]
          established of
     Inl e \<Rightarrow> False
   | Inr s \<Rightarrow>
       (case handleHeartbeatMessage (looperInfo 0 8) s of
          Inl e \<Rightarrow> False
        | Inr s' \<Rightarrow>
            engineId s = 7 \<and>
            loops s = [\<lparr>loop_index = 0, loop_state = Playing, loop_led = 0\<rparr>,
                       \<lparr>loop_index = 1, loop_state = Off, loop_led = 1\<rparr>] \<and>
            loops s' = loops s \<and> loopCount s' = 2 \<and>
            filter isOscSent (drop (length (events s)) (events s')) = [])"
  by (simp add: handler_eval upt_rec)

section \<open>Properties of the control and handshake messages\<close>

text \<open>
  Claim C6 (a heartbeat with the known engine id and a larger loop count adds exactly the
  new loops, registers each for auto updates and queries its state, and leaves the old
  loops alone): evaluated on the code. After \<^verbatim>\<open>/pingack("x","1.0",2,7)\<close> and a state
  update that puts loop 0 in state Playing, the message \<^verbatim>\<open>/heartbeat("x","1.0",3,7)\<close> adds
  loop 2, leaves loops 0 and 1 as they were and sends
  \<^verbatim>\<open>/sl/2/register_auto_update\<close>; it sends nothing else to the looper, so no
  \<^verbatim>\<open>/sl/2/get\<close>.
\<close>

theorem heartbeat_same_engine_no_query:
  "case run [handlePingAckMessage (looperInfo 2 7), handleCtrlMessage (ctrlState 0 Playing)]
          established of
     Inl e \<Rightarrow> False
   | Inr s \<Rightarrow>
       (case handleHeartbeatMessage (looperInfo 3 7) s of
          Inl e \<Rightarrow> False
        | Inr s' \<Rightarrow>
            engineId s = 7 \<and> loopCount s = 2 \<and> loopCount s' = 3 \<and>
            loops s = [\<lparr>loop_index = 0, loop_state = Playing, loop_led = 0\<rparr>,
                       \<lparr>loop_index = 1, loop_state = Off, loop_led = 1\<rparr>] \<and>
            loops s' = loops s @ [\<lparr>loop_index = 2, loop_state = Off, loop_led = 2\<rparr>] \<and>
            filter isOscSent (drop (length (events s)) (events s')) =
              [OscSent ''/sl/2/register_auto_update''
                 [OString ''state'', OInt32 100, OString ''osc.udp://localhost:9000/'',
                  OString ''/ctrl'']])"
  by (simp add: handler_eval upt_rec)

lemma ticks3: "ticks 3 False False established = established\<lparr>heartbeat := 2\<rparr>"
  using ticks_countdown [of established 3 False False] by (simp add: established_eq)

text \<open>
  Claim C7 (every parsed \<^verbatim>\<open>/ctrl\<close> message resets the countdown to 5, the
  \<^verbatim>\<open>selected_loop_num\<close> message with loop index -2 included; other negative indices are
  ignored): evaluated on the code. With the countdown at 2, the message
  \<^verbatim>\<open>/ctrl(-2, "selected_loop_num", 3.0)\<close> updates the selected loop and its display and
  leaves the countdown at 2. A message with a non-negative index resets the countdown to
  5 whatever its key, and a message with index -1 changes nothing.
\<close>

theorem ctrl_selected_loop_keeps_countdown:
  "heartbeat (ticks 3 False False established) = 2 \<and>
   (case handleCtrlMessage [OInt32 (-2), OString ''selected_loop_num'', OFloat32 3]
           (ticks 3 False False established) of
      Inl e \<Rightarrow> False
    | Inr s' \<Rightarrow> selectedLoop s' = 3 \<and> heartbeat s' = 2 \<and>
        events s' = events (ticks 3 False False established) @ [Cc 113 0, Cc 114 3]) \<and>
   (case handleCtrlMessage [OInt32 0, OString ''selected_loop_num'', OFloat32 3]
           (ticks 3 False False established) of
      Inl e \<Rightarrow> False
    | Inr s' \<Rightarrow> heartbeat s' = 5) \<and>
   handleCtrlMessage [OInt32 (-1), OString ''state'', OFloat32 3]
     (ticks 3 False False established) = Inr (ticks 3 False False established)"
  unfolding ticks3 by (simp add: handler_eval)




text \<open>
  Claim C9, as amended. \<^verbatim>\<open>handleCtrlMessage\<close> checks neither the number of arguments
  nor the loop index. A message that ends right after a non-negative (or -2) loop index,
  or right after the key \<^verbatim>\<open>"state"\<close> (for -2: \<^verbatim>\<open>"selected_loop_num"\<close>), is read past its
  end. A message \<^verbatim>\<open>(i, "state", float)\<close> with \<open>i\<close> at or beyond the number of loops
  indexes the loop array out of range; with \<open>i\<close> below the number of loops, and the loop
  bound to an LED of the pool, it is processed without failure. A message with a
  non-negative index whose second argument is not the string \<^verbatim>\<open>"state"\<close>, or whose
  third argument is not a float32, indexes no loop and only resets the countdown.
\<close>

theorem ctrl_unchecked_accesses:
  assumes "0 \<le> i"
  shows "handleCtrlMessage [OInt32 i] s = Inl ArgumentPastEnd \<and>
         handleCtrlMessage [OInt32 i, OString ''state''] s = Inl ArgumentPastEnd \<and>
         handleCtrlMessage [OInt32 (-2)] s = Inl ArgumentPastEnd \<and>
         handleCtrlMessage [OInt32 (-2), OString ''selected_loop_num''] s =
           Inl ArgumentPastEnd \<and>
         (int (length (loops s)) \<le> i \<longrightarrow>
            handleCtrlMessage (OInt32 i # OString ''state'' # OFloat32 v # rest) s =
              Inl LoopIndexOutOfRange) \<and>
         (i < int (length (loops s)) \<and> length (leds s) = 10 \<and> loopOk (loops s ! nat i) \<longrightarrow>
            (\<exists>s'. handleCtrlMessage (OInt32 i # OString ''state'' # OFloat32 v # rest) s =
                    Inr s' \<and>
                  heartbeat s' = 5 \<and> loop_state (loops s' ! nat i) = v)) \<and>
         (key \<noteq> OString ''state'' \<longrightarrow>
            handleCtrlMessage (OInt32 i # key # rest) s = Inr (s\<lparr>heartbeat := 5\<rparr>)) \<and>
         (\<not> isFloat32 a2 \<longrightarrow>
            handleCtrlMessage (OInt32 i # OString ''state'' # a2 # rest) s =
              Inr (s\<lparr>heartbeat := 5\<rparr>))"
proof -
  have i2: "i \<noteq> -2" "\<not> i < 0" using assms by simp_all
  have short: "handleCtrlMessage [OInt32 i] s = Inl ArgumentPastEnd"
    "handleCtrlMessage [OInt32 i, OString ''state''] s = Inl ArgumentPastEnd"
    "handleCtrlMessage [OInt32 (-2)] s = Inl ArgumentPastEnd"
    "handleCtrlMessage [OInt32 (-2), OString ''selected_loop_num''] s = Inl ArgumentPastEnd"
    using i2 by (simp_all add: handleCtrlMessage_def)
  have oob: "handleCtrlMessage (OInt32 i # OString ''state'' # OFloat32 v # rest) s =
             Inl LoopIndexOutOfRange" if "int (length (loops s)) \<le> i"
    using i2 that by (simp add: handleCtrlMessage_def)
  have safe: "\<exists>s'. handleCtrlMessage (OInt32 i # OString ''state'' # OFloat32 v # rest) s =
                    Inr s' \<and>
                  heartbeat s' = 5 \<and> loop_state (loops s' ! nat i) = v"
    if "i < int (length (loops s))" "length (leds s) = 10" "loopOk (loops s ! nat i)"
  proof -
    have k: "nat i < length (loops s)" using that(1) assms by simp
    define j where "j = nat (loop_index (loops s ! nat i))"
    have j: "loop_index (loops s ! nat i) = int j" "j < 10" "loop_led (loops s ! nat i) = j"
      using that(3) by (auto simp add: loopOk_def j_def)
    obtain st t on where tab: "specLedTable v (mode s) = (st, t, on)"
      by (cases "specLedTable v (mode s)") auto
    from updateLoopLedState_result [OF that(2) k j tab]
    obtain s2 where r: "updateLoopLedState (nat i) v s =
        Inr (s2\<lparr>loops := (loops s)[nat i := (loops s ! nat i)\<lparr>loop_state := v\<rparr>]\<rparr>)"
      by blast
    show ?thesis
      using i2 that(1) k r by (simp add: handleCtrlMessage_def)
  qed
  have other: "handleCtrlMessage (OInt32 i # key # rest) s = Inr (s\<lparr>heartbeat := 5\<rparr>)"
    if "key \<noteq> OString ''state''"
    using i2 that by (simp add: handleCtrlMessage_def)
  have nofloat: "handleCtrlMessage (OInt32 i # OString ''state'' # a2 # rest) s =
               Inr (s\<lparr>heartbeat := 5\<rparr>)"
    if "\<not> isFloat32 a2"
    using i2 that by (cases a2) (simp_all add: handleCtrlMessage_def)
  show ?thesis
    using short oob safe other nofloat by blast
qed

theorem ctrl_unchecked_accesses_witness:
  "(0::int) \<le> 1 \<and>
   handleCtrlMessage [OInt32 1] (withLoops [Off, Off]) = Inl ArgumentPastEnd \<and>
   handleCtrlMessage [OInt32 1, OString ''state''] (withLoops [Off, Off]) =
     Inl ArgumentPastEnd \<and>
   handleCtrlMessage [OInt32 (-2)] (withLoops [Off, Off]) = Inl ArgumentPastEnd \<and>
   handleCtrlMessage [OInt32 (-2), OString ''selected_loop_num''] (withLoops [Off, Off]) =
     Inl ArgumentPastEnd \<and>
   length (loops (withLoops [Off])) = 1 \<and>
   handleCtrlMessage [OInt32 1, OString ''state'', OFloat32 Recording] (withLoops [Off]) =
     Inl LoopIndexOutOfRange \<and>
   length (loops (withLoops [Off, Off])) = 2 \<and>
   (\<exists>s'. handleCtrlMessage [OInt32 1, OString ''state'', OFloat32 Recording]
            (withLoops [Off, Off]) = Inr s' \<and>
      heartbeat s' = 5 \<and> loop_state (loops s' ! 1) = Recording)"
proof -
  have l: "length (loops (withLoops [Off])) = 1" "length (loops (withLoops [Off, Off])) = 2"
    "length (leds (withLoops [Off, Off])) = 10" "loopOk (loops (withLoops [Off, Off]) ! 1)"
    by (simp_all add: withLoops_def loopsOf_def loopOk_def established_eq initial_def
        initialLeds_def)
  show ?thesis
    using ctrl_unchecked_accesses [of 1 "withLoops [Off, Off]" Recording "[]" "OString ''state''"]
      ctrl_unchecked_accesses [of 1 "withLoops [Off]" Recording "[]" "OString ''state''"] l
    by simp
qed

text \<open>
  Claim C9 as stated says that every non-empty message with fewer than three arguments
  is read past its end and that every non-negative index at or beyond the loop count
  indexes the loop array out of range. With no loops at all, the two-argument message
  \<^verbatim>\<open>(0, "volume")\<close>, the one-argument messages \<^verbatim>\<open>(-1)\<close> and \<^verbatim>\<open>("state")\<close>, and the
  messages \<^verbatim>\<open>(99, "volume", 1.0)\<close> and \<^verbatim>\<open>(99, "state", 1)\<close> (an int32 value) are all
  processed without any out-of-range access.
\<close>

theorem ctrl_short_message_counterexample:
  "length (loops established) = 0 \<and>
   handleCtrlMessage [OInt32 0, OString ''volume''] established = Inr established \<and>
   handleCtrlMessage [OInt32 (-1)] established = Inr established \<and>
   handleCtrlMessage [OString ''state''] established =
     Inr (emit (Stderr ''unrecognized format for ctrl message.'') established) \<and>
   handleCtrlMessage [OInt32 99, OString ''volume'', OFloat32 1] established =
     Inr established \<and>
   handleCtrlMessage [OInt32 99, OString ''state'', OInt32 1] established = Inr established"
  by (simp add: handleCtrlMessage_def established_eq initial_def)

text \<open>
  Claim C10. Loop creation binds loop \<open>i\<close> to \<^verbatim>\<open>leds_.getReference(i)\<close> with no check
  against the size of the pool. In a state with the pool of 10 LEDs and a stored loop
  count of at most 10 (\<open>poolInv\<close>, which holds initially and is kept by the tick and by
  every handler that returns), a \<^verbatim>\<open>/pingack\<close> or a \<^verbatim>\<open>/heartbeat\<close> whose third argument
  reports more than 10 loops runs into an access outside the LED pool, whatever its
  other arguments are, and whether or not the engine id is the known one.
\<close>

theorem loop_count_beyond_pool:
  assumes "length (leds s) = 10" "10 < n" "loopCount s \<le> 10"
  shows "handlePingAckMessage (a0 # a1 # OInt32 n # rest) s = Inl LedIndexOutOfRange \<and>
         handleHeartbeatMessage (a0 # a1 # OInt32 n # rest) s = Inl LedIndexOutOfRange"
proof -
  let ?msg = "a0 # a1 # OInt32 n # rest"
  let ?s1 = "pingAckArgs 0 ?msg s"
  have eq: "?s1 = pingAckArgs 3 rest ((pingAckArgs 0 [a0, a1] s)\<lparr>loopCount := n\<rparr>)"
    by (simp add: numeral_3_eq_3)
  have lc: "loopCount ?s1 = n"
    unfolding eq by (simp add: pingAckArgs_keeps(3) del: pingAckArgs.simps)
  have ll: "length (leds (?s1\<lparr>loops := []\<rparr>)) = 10"
    using assms(1) by (simp add: pingAckArgs_keeps(1) del: pingAckArgs.simps)
  have "pingAckLoops 0 n (?s1\<lparr>loops := []\<rparr>) = Inl LedIndexOutOfRange"
    using ll assms(2) by (intro pingAckLoops_overflow) simp_all
  then have ack: "handlePingAckMessage ?msg s = Inl LedIndexOutOfRange"
    using lc assms(2) by (simp add: handlePingAckMessage_def Let_def del: pingAckArgs.simps)
  let ?r = "heartbeatArgs 0 ?msg (0, engineId s, s)"
  obtain numloops uid s1 where h: "?r = (numloops, uid, s1)"
    by (cases ?r) auto
  have "fst ?r = n"
    by (cases a0; cases a1) (simp_all add: numeral_3_eq_3 heartbeatArgs_keeps(5))
  then have nl: "numloops = n"
    using h by simp
  have l1: "length (leds s1) = 10" "loopCount s1 \<le> 10"
    using heartbeatArgs_keeps(1,3) [of 0 ?msg 0 "engineId s" s] h assms by simp_all
  have re: "rebuildLoops 0 n (s1\<lparr>loopCount := n, loops := []\<rparr>) = Inl LedIndexOutOfRange"
    using l1 assms(2) by (intro rebuildLoops_overflow) simp_all
  have ex: "extendLoops (loopCount s1) n s1 = Inl LedIndexOutOfRange"
    using l1 assms(2) by (intro extendLoops_overflow) simp_all
  have hb: "handleHeartbeatMessage ?msg s = Inl LedIndexOutOfRange"
    using re ex l1 assms(2) unfolding handleHeartbeatMessage_def h nl
    by simp
  show ?thesis using ack hb by simp
qed

theorem loop_count_beyond_pool_witness:
  "length (leds established) = 10 \<and> loopCount established \<le> 10 \<and>
   handlePingAckMessage (looperInfo 11 7) established = Inl LedIndexOutOfRange \<and>
   handleHeartbeatMessage (looperInfo 11 7) established = Inl LedIndexOutOfRange"
proof -
  have h: "length (leds established) = 10" "(10::int) < 11" "loopCount established \<le> 10"
    by (simp_all add: established_eq initial_def initialLeds_def)
  show ?thesis
    using loop_count_beyond_pool [OF h, of "OString ''x''" "OString ''1.0''" "[OInt32 7]"] h
    by (simp add: looperInfo_def)
qed

end
